theory Spec2Isabelle
  imports Complex_Main "HOL-Library.AList"
begin

section \<open>Book-to-speech converter (sample.py)\<close>

text \<open>
  A shallow embedding of the class \<open>BookToSpeech\<close> of \<^verbatim>\<open>src/sample.py\<close>.
  Python strings are character lists; a character stands for a code point below 256.
  Python integers are \<open>int\<close>. A dict is an association list in insertion order
  (Python dicts keep insertion order); \<open>d[k] = v\<close> is \<open>AList.update k v d\<close>, which
  replaces the value of a present key in place and appends an absent key at the end.
\<close>

subsection \<open>Exceptions and list indexing\<close>

datatype error =
    IndexError
  | FileNotFoundError string
  | RuntimeError string

text \<open>
  The exceptions of the model: the \<open>IndexError\<close> of a list index out of range, the
  \<open>FileNotFoundError\<close> of opening a missing file, and any exception raised inside a
  library call, which carries its message. \<open>str_of_error\<close> is \<open>str(e)\<close>, as the
  handler of \<open>generate_audio\<close> prints it.
\<close>

fun str_of_error :: "error \<Rightarrow> string" where
  "str_of_error IndexError = ''list index out of range''"
| "str_of_error (FileNotFoundError p) =
     ''[Errno 2] No such file or directory: '' @ [CHR 0x27] @ p @ [CHR 0x27]"
| "str_of_error (RuntimeError m) = m"

text \<open>
  \<open>xs[i]\<close> on a Python list: an index from \<open>-len(xs)\<close> to \<open>-1\<close> counts from the
  end, and any index outside \<open>-len(xs) .. len(xs) - 1\<close> raises \<open>IndexError\<close>.
\<close>

definition py_getitem :: "'a list \<Rightarrow> int \<Rightarrow> error + 'a" where
  "py_getitem xs i =
     (if 0 \<le> i \<and> i < int (length xs) then Inr (xs ! nat i)
      else if - int (length xs) \<le> i \<and> i < 0 then Inr (xs ! nat (int (length xs) + i))
      else Inl IndexError)"

subsection \<open>The converter object and the world it acts on\<close>

text \<open>
  The fields of \<open>self\<close> that the methods read or write (\<open>speed\<close>,
  \<open>available_voices\<close>, \<open>character_voices\<close>, \<open>next_voice_index\<close>), together with
  the two parts of the outside world the methods change: the files on disk (a map from
  path to content, \<open>'f\<close> being the type of file contents) and the lines printed so far.
\<close>

record 'f book_to_speech =
  speed :: real
  available_voices :: "string list"
  character_voices :: "(string \<times> string) list"
  next_voice_index :: int
  files :: "string \<rightharpoonup> 'f"
  stdout :: "string list"

text \<open>
  \<open>__init__\<close> (lines 16 to 24): ten voices, the narrator bound to the first one, the
  cursor at 1. The disk is what it was; nothing is printed.
\<close>

definition init :: "real \<Rightarrow> (string \<rightharpoonup> 'f) \<Rightarrow> 'f book_to_speech" where
  "init speed0 disk =
     \<lparr> speed = speed0,
       available_voices = [''p225'', ''p226'', ''p227'', ''p228'', ''p229'',
                           ''p230'', ''p231'', ''p232'', ''p233'', ''p234''],
       character_voices = [(''narrator'', ''p225'')],
       next_voice_index = 1,
       files = disk,
       stdout = [] \<rparr>"

definition print :: "string \<Rightarrow> 'f book_to_speech \<Rightarrow> 'f book_to_speech" where
  "print line self = self\<lparr>stdout := stdout self @ [line]\<rparr>"

subsection \<open>Voice registry: \<open>assign_voice\<close>\<close>

text \<open>
  \<open>assign_voice\<close> (lines 131 to 139). A bound character is looked up. An unbound one
  is bound to \<open>available_voices[next_voice_index]\<close>, the cursor moves on modulo the
  pool size and a line is printed; when the indexing raises \<open>IndexError\<close> the
  character is bound to \<open>"p225"\<close> and the cursor stays. The indexing is evaluated
  before the dict is written, so a failed indexing leaves the dict untouched until the
  handler runs. (With an empty pool the indexing fails first, so the modulo by the pool
  size is never reached with a zero divisor.) The result is the voice and the new state.
\<close>

definition assign_voice :: "string \<Rightarrow> 'f book_to_speech \<Rightarrow> string \<times> 'f book_to_speech" where
  "assign_voice character self =
     (case map_of (character_voices self) character of
        Some voice \<Rightarrow> (voice, self)
      | None \<Rightarrow>
         (case py_getitem (available_voices self) (next_voice_index self) of
            Inr voice \<Rightarrow>
              (voice,
               print (''Assigned '' @ voice @ '' to '' @ character)
                 (self\<lparr>character_voices := AList.update character voice (character_voices self),
                       next_voice_index :=
                         (next_voice_index self + 1) mod int (length (available_voices self))\<rparr>))
          | Inl e \<Rightarrow>
              (''p225'',
               self\<lparr>character_voices := AList.update character ''p225'' (character_voices self)\<rparr>)))"

text \<open>
  A sequence of calls of \<open>assign_voice\<close>, one per label, in order: the voices returned
  and the state after the last call.
\<close>

fun assign_voices :: "string list \<Rightarrow> 'f book_to_speech \<Rightarrow> string list \<times> 'f book_to_speech" where
  "assign_voices [] self = ([], self)"
| "assign_voices (c # cs) self =
     (case assign_voice c self of
        (v, self1) \<Rightarrow> (case assign_voices cs self1 of (vs, self2) \<Rightarrow> (v # vs, self2)))"

text \<open>
  The order in which the elements of a list are met for the first time: each element
  once, at the place of its first occurrence.
\<close>

fun first_seen :: "'a list \<Rightarrow> 'a list" where
  "first_seen [] = []"
| "first_seen (x # xs) = x # filter (\<lambda>y. y \<noteq> x) (first_seen xs)"

text \<open>
  The invariant of the registry in every state reached from \<open>init\<close>: the pool is not
  empty, the cursor is the number of bindings modulo the pool size, the \<open>k\<close>-th
  binding (from 0, in insertion order) holds the pool voice at \<open>k\<close> modulo the pool
  size, and no label is bound twice.
\<close>

definition registry_ok :: "'f book_to_speech \<Rightarrow> bool" where
  "registry_ok self \<longleftrightarrow>
     available_voices self \<noteq> [] \<and>
     next_voice_index self =
       int (length (character_voices self)) mod int (length (available_voices self)) \<and>
     map snd (character_voices self) =
       map (\<lambda>k. available_voices self ! (k mod length (available_voices self)))
         [0..<length (character_voices self)] \<and>
     distinct (map fst (character_voices self))"

subsection \<open>Characters, whitespace and case\<close>

text \<open>
  Whitespace as \<open>str.strip()\<close>, \<open>str.isspace()\<close> and the pattern \<open>\s\<close> of a
  \<open>str\<close> regular expression see it, on code points below 256: tab, line feed,
  vertical tab, form feed, carriage return, the four separators 28 to 31, the space,
  NEL (133) and the no-break space (160).
\<close>

definition is_space :: "char \<Rightarrow> bool" where
  "is_space c \<longleftrightarrow> (of_char c :: nat) \<in> set [9, 10, 11, 12, 13, 28, 29, 30, 31, 32, 133, 160]"

text \<open>\<open>s.strip()\<close>: leading and trailing whitespace removed.\<close>

definition strip :: "string \<Rightarrow> string" where
  "strip s = rev (dropWhile is_space (rev (dropWhile is_space s)))"

text \<open>
  \<open>s.lower()\<close> on code points below 256: the letters A to Z and the Latin-1 capitals
  192 to 222 (but not the multiplication sign 215) move up by 32.
\<close>

definition lower_char :: "char \<Rightarrow> char" where
  "lower_char c =
     (let n = (of_char c :: nat) in
      if (65 \<le> n \<and> n \<le> 90) \<or> (192 \<le> n \<and> n \<le> 222 \<and> n \<noteq> 215)
      then char_of (n + 32) else c)"

definition lower :: "string \<Rightarrow> string" where
  "lower s = map lower_char s"

subsection \<open>Speaker attribution: \<open>detect_speaker_ml\<close>\<close>

text \<open>The two quote characters of the pattern \<^verbatim>\<open>["\']\<close>: \<open>"\<close> (34) and \<open>'\<close> (39).\<close>

definition is_quote :: "char \<Rightarrow> bool" where
  "is_quote c \<longleftrightarrow> c = CHR 0x22 \<or> c = CHR 0x27"

text \<open>
  The pattern \<^verbatim>\<open>["\'](.*?)["\']\<close> after its opening quote has matched: the lazy
  \<open>.*?\<close> takes characters one at a time until the next character is a quote. The dot
  does not match a line feed (the pattern is compiled without \<open>DOTALL\<close>), so the
  attempt fails when a line feed comes before any quote, and when the string ends. The
  result is the group and the text after the closing quote.
\<close>

fun lazy_to_quote :: "string \<Rightarrow> (string \<times> string) option" where
  "lazy_to_quote [] = None"
| "lazy_to_quote (c # cs) =
     (if is_quote c then Some ([], cs)
      else if c = CHR 0x0A then None
      else (case lazy_to_quote cs of
              None \<Rightarrow> None
            | Some (m, rest) \<Rightarrow> Some (c # m, rest)))"

lemma lazy_to_quote_shorter:
  "lazy_to_quote cs = Some (m, rest) \<Longrightarrow> length rest < length cs"
  by (induction cs arbitrary: m rest) (auto split: if_splits option.splits)

text \<open>
  \<open>re.findall(r'["\'](.*?)["\']', sentence)\<close> (line 51): the groups of the matches
  found from left to right, each search starting after the previous match; where the
  attempt at an opening quote fails the search moves on by one character.
\<close>

function findall_quoted :: "string \<Rightarrow> string list" where
  "findall_quoted [] = []"
| "findall_quoted (c # cs) =
     (if is_quote c then
        (case lazy_to_quote cs of
           Some (m, rest) \<Rightarrow> m # findall_quoted rest
         | None \<Rightarrow> findall_quoted cs)
      else findall_quoted cs)"
  by pat_completeness auto
termination
  by (relation "measure length") (auto dest: lazy_to_quote_shorter)

text \<open>
  A token of the parse, with the attributes the method reads: \<open>token.text\<close>,
  \<open>token.lemma_\<close>, \<open>token.dep_\<close> and \<open>token.children\<close>. The parser itself
  (\<open>nlp\<close>, line 13) is outside the repository and is a parameter of the model: a
  function from the sentence to its tokens, in sentence order. The model takes the
  parse as given; a parser that raises is not modelled.
\<close>

datatype token =
  Token (tok_text: string) (tok_lemma: string) (tok_dep: string) (tok_children: "token list")

definition speech_verbs :: "string list" where
  "speech_verbs = [''say'', ''said'', ''exclaim'', ''exclaimed'', ''shout'', ''shouted'',
                   ''whisper'', ''whispered'', ''scream'', ''screamed'', ''yell'', ''yelled'',
                   ''ask'', ''asked'', ''reply'', ''replied'']"

text \<open>
  The inner loop (lines 64 to 67): the text of the first child whose dependency is
  \<open>nsubj\<close> or \<open>nsubjpass\<close>, if there is one.
\<close>

fun first_subject :: "token list \<Rightarrow> string option" where
  "first_subject [] = None"
| "first_subject (child # rest) =
     (if tok_dep child \<in> set [''nsubj'', ''nsubjpass''] then Some (tok_text child)
      else first_subject rest)"

text \<open>Python truthiness of \<open>speaker\<close>: neither \<open>None\<close> nor the empty string.\<close>

definition truthy :: "string option \<Rightarrow> bool" where
  "truthy speaker \<longleftrightarrow> (case speaker of None \<Rightarrow> False | Some s \<Rightarrow> s \<noteq> [])"

text \<open>
  The outer loop (lines 62 to 69), with the variable \<open>speaker\<close> as an accumulator: at a
  token whose lower-cased lemma is a speech verb the inner loop may set \<open>speaker\<close>,
  and the outer loop breaks when \<open>speaker\<close> is then truthy.
\<close>

fun scan_tokens :: "token list \<Rightarrow> string option \<Rightarrow> string option" where
  "scan_tokens [] speaker = speaker"
| "scan_tokens (tok # rest) speaker =
     (if lower (tok_lemma tok) \<in> set speech_verbs then
        (let speaker1 = (case first_subject (tok_children tok) of
                           Some t \<Rightarrow> Some t
                         | None \<Rightarrow> speaker)
         in if truthy speaker1 then speaker1 else scan_tokens rest speaker1)
      else scan_tokens rest speaker)"

text \<open>Lines 73 to 76: the label of a sentence in which no speaker was found.\<close>

definition quote_sentinel :: "string \<Rightarrow> string" where
  "quote_sentinel sentence =
     (if CHR 0x22 \<in> set sentence \<or> CHR 0x27 \<in> set sentence then ''dialogue'' else ''narrator'')"

text \<open>
  \<open>detect_speaker_ml\<close> (lines 45 to 80). \<open>if not speaker\<close> and \<open>if not dialogue\<close>
  hold for \<open>None\<close> and for the empty string. The result is the speaker label and the
  dialogue between two double quotes.
\<close>

definition detect_speaker_ml :: "(string \<Rightarrow> token list) \<Rightarrow> string \<Rightarrow> string \<times> string" where
  "detect_speaker_ml nlp sentence =
     (let doc = nlp sentence;
          quote_matches = findall_quoted sentence;
          dialogue = (case quote_matches of [] \<Rightarrow> None | m # _ \<Rightarrow> Some (strip m));
          speaker = scan_tokens doc None;
          speaker1 = (case speaker of
                        None \<Rightarrow> quote_sentinel sentence
                      | Some s \<Rightarrow> if s = [] then quote_sentinel sentence else s);
          dialogue1 = (case dialogue of
                         None \<Rightarrow> sentence
                       | Some d \<Rightarrow> if d = [] then sentence else d)
      in (speaker1, [CHR 0x22] @ dialogue1 @ [CHR 0x22]))"



subsection \<open>Sentence segmentation\<close>

definition is_terminal :: "char \<Rightarrow> bool" where
  "is_terminal c \<longleftrightarrow> c = CHR ''.'' \<or> c = CHR ''!'' \<or> c = CHR ''?''"

text \<open>
  \<open>re.split(r'(?<=[.!?])\s+', text)\<close> (line 90), scanning the text with the piece
  read so far in \<open>cur\<close>. A match starts at a whitespace character whose predecessor in
  the text is one of \<open>.\<close>, \<open>!\<close>, \<open>?\<close> and takes the whole run of whitespace;
  the piece before it is emitted and the scan goes on after the run. The predecessor is
  the last character of \<open>cur\<close>: at the start of the text there is none, and right after
  a match the next character is not whitespace. The piece after the last match is
  emitted at the end, empty or not.
\<close>

function split_after_terminal :: "string \<Rightarrow> string \<Rightarrow> string list" where
  "split_after_terminal cur [] = [cur]"
| "split_after_terminal cur (c # cs) =
     (if is_space c \<and> cur \<noteq> [] \<and> is_terminal (last cur)
      then cur # split_after_terminal [] (dropWhile is_space cs)
      else split_after_terminal (cur @ [c]) cs)"
  by pat_completeness auto
termination
  by (relation "measure (\<lambda>(cur, rest). length rest)")
     (auto simp: less_Suc_eq_le length_dropWhile_le)

definition re_split_sentences :: "string \<Rightarrow> string list" where
  "re_split_sentences text = split_after_terminal [] text"

text \<open>
  The sentences the loop of \<open>generate_audio\<close> works on (lines 95 to 98): each piece
  stripped, the pieces that are then empty skipped.
\<close>

definition segment_sentences :: "string \<Rightarrow> string list" where
  "segment_sentences text = filter (\<lambda>s. s \<noteq> []) (map strip (re_split_sentences text))"

text \<open>
  A boundary inside a string: a terminal punctuation character directly followed by a
  whitespace character.
\<close>

fun has_boundary :: "string \<Rightarrow> bool" where
  "has_boundary (a # b # cs) = ((is_terminal a \<and> is_space b) \<or> has_boundary (b # cs))"
| "has_boundary _ = False"

text \<open>Pieces put back together with a separator between each two neighbours.\<close>

fun weave :: "string list \<Rightarrow> string list \<Rightarrow> string" where
  "weave (p # ps) (s # ss) = p @ s @ weave ps ss"
| "weave ps [] = concat ps"
| "weave [] ss = []"

subsection \<open>Text extraction: the end of \<open>extract_text_from_pdf\<close>\<close>




subsection \<open>Audio generation: \<open>generate_audio\<close>\<close>

text \<open>
  An audio track is the sequence of the pieces it was concatenated from: silences of a
  given duration in milliseconds and sounds. \<open>AudioSegment.silent(duration=d)\<close> is
  \<open>[Silence d]\<close>, a loaded segment \<open>a\<close> is \<open>[Sound a]\<close>, and \<open>+\<close> on
  segments is \<open>@\<close>.
\<close>

datatype 'a piece = Silence nat | Sound 'a

text \<open>
  What a call that writes a file does: it writes the content, or it raises, leaving
  nothing or some content at the path.
\<close>

datatype 'f written = Written 'f | Failed error "'f option"

text \<open>
  The libraries \<open>generate_audio\<close> calls, as parameters of the model: the parser
  \<open>nlp\<close>; \<open>self.tts.tts_to_file(text, speaker, file_path, speed)\<close>; the decoding
  of a file's content by \<open>AudioSegment.from_wav\<close>; the change of frame rate of lines
  114 to 116; and \<open>output_audio.export\<close>.
\<close>

record ('f, 'a) engine =
  nlp :: "string \<Rightarrow> token list"
  tts_to_file :: "string \<Rightarrow> string \<Rightarrow> string \<Rightarrow> real \<Rightarrow> 'f written"
  from_wav :: "'f \<Rightarrow> error + 'a"
  change_speed :: "real \<Rightarrow> 'a \<Rightarrow> error + 'a"
  export_wav :: "'a piece list \<Rightarrow> 'f written"

text \<open>The effect of a writing call on the disk, and the exception it raises if any.\<close>

definition write_file :: "string \<Rightarrow> 'f written \<Rightarrow> 'f book_to_speech \<Rightarrow> error option \<times> 'f book_to_speech" where
  "write_file path w self =
     (case w of
        Written f \<Rightarrow> (None, self\<lparr>files := (files self)(path \<mapsto> f)\<rparr>)
      | Failed e None \<Rightarrow> (Some e, self)
      | Failed e (Some f) \<Rightarrow> (Some e, self\<lparr>files := (files self)(path \<mapsto> f)\<rparr>))"

text \<open>\<open>AudioSegment.from_wav(path)\<close>: the file must exist and decode.\<close>

definition load_wav :: "('f, 'a) engine \<Rightarrow> string \<Rightarrow> 'f book_to_speech \<Rightarrow> error + 'a" where
  "load_wav eng path self =
     (case files self path of
        None \<Rightarrow> Inl (FileNotFoundError path)
      | Some f \<Rightarrow> from_wav eng f)"

text \<open>\<open>str(idx)\<close> for an index of \<open>enumerate\<close>: the decimal digits.\<close>

fun str_of_nat :: "nat \<Rightarrow> string" where
  "str_of_nat n =
     (if n < 10 then [''0123456789'' ! n]
      else str_of_nat (n div 10) @ [''0123456789'' ! (n mod 10)])"

definition temp_path_of :: "nat \<Rightarrow> string" where
  "temp_path_of idx = ''output_audio/temp_'' @ str_of_nat idx @ ''.wav''"

text \<open>\<open>detect_speaker\<close> (lines 83 to 85).\<close>

definition detect_speaker ::
  "(string \<Rightarrow> token list) \<Rightarrow> int \<Rightarrow> string list \<Rightarrow> error + string \<times> string" where
  "detect_speaker parse current_index sentences =
     (case py_getitem sentences current_index of
        Inl e \<Rightarrow> Inl e
      | Inr s \<Rightarrow> Inr (detect_speaker_ml parse (strip s)))"

text \<open>The progress line of line 103, with the first 50 characters of the dialogue.\<close>

definition processing_line :: "string \<Rightarrow> string \<Rightarrow> string" where
  "processing_line speaker dialogue =
     ''Processing: '' @ speaker @ '' => '' @ take 50 dialogue @ ''...''"

text \<open>
  One pass through the body of the loop (lines 96 to 119), on the variables
  \<open>output_audio\<close> and \<open>temp_files\<close> and the state. The first component of the
  result is the exception that left the body, if any; the rest is what the variables
  and the state were at that moment.
\<close>

type_synonym ('f, 'a) vars = "'a piece list \<times> string list \<times> 'f book_to_speech"

definition loop_body ::
  "('f, 'a) engine \<Rightarrow> string list \<Rightarrow> nat \<Rightarrow> string \<Rightarrow> ('f, 'a) vars \<Rightarrow> error option \<times> ('f, 'a) vars" where
  "loop_body eng sentences idx sentence0 vars =
     (case vars of (output_audio, temp_files, self) \<Rightarrow>
      let sentence = strip sentence0 in
      if sentence = [] then (None, vars)
      else
        (case detect_speaker (nlp eng) (int idx) sentences of
           Inl e \<Rightarrow> (Some e, vars)
         | Inr (speaker, dialogue) \<Rightarrow>
            (case assign_voice speaker self of (voice, self1) \<Rightarrow>
             let temp_path = temp_path_of idx;
                 self2 = print (processing_line speaker dialogue) self1
             in
             (case write_file temp_path (tts_to_file eng dialogue voice temp_path (speed self2)) self2 of
                (Some e, self3) \<Rightarrow> (Some e, output_audio, temp_files, self3)
              | (None, self3) \<Rightarrow>
                 (case load_wav eng temp_path self3 of
                    Inl e \<Rightarrow> (Some e, output_audio, temp_files, self3)
                  | Inr segment \<Rightarrow>
                     (case (if speed self3 \<noteq> 1 then change_speed eng (speed self3) segment
                            else Inr segment) of
                        Inl e \<Rightarrow> (Some e, output_audio, temp_files, self3)
                      | Inr segment1 \<Rightarrow>
                         (None,
                          output_audio @ ([Sound segment1] @ [Silence 200]),
                          temp_files @ [temp_path],
                          self3)))))))"

text \<open>
  The \<open>for\<close> loop over \<open>enumerate(sentences)\<close> (line 95): an exception leaves the
  loop at once.
\<close>

fun for_loop ::
  "('f, 'a) engine \<Rightarrow> string list \<Rightarrow> (nat \<times> string) list \<Rightarrow> ('f, 'a) vars \<Rightarrow> error option \<times> ('f, 'a) vars" where
  "for_loop eng sentences [] vars = (None, vars)"
| "for_loop eng sentences ((idx, sentence) # rest) vars =
     (case loop_body eng sentences idx sentence vars of
        (Some e, vars1) \<Rightarrow> (Some e, vars1)
      | (None, vars1) \<Rightarrow> for_loop eng sentences rest vars1)"

text \<open>The \<open>finally\<close> block (lines 126 to 128): every listed file that exists is removed.\<close>

fun remove_files :: "string list \<Rightarrow> 'f book_to_speech \<Rightarrow> 'f book_to_speech" where
  "remove_files [] self = self"
| "remove_files (f # fs) self =
     remove_files fs (if files self f \<noteq> None then self\<lparr>files := (files self)(f := None)\<rparr> else self)"

text \<open>
  \<open>generate_audio\<close> (lines 88 to 128). The \<open>try\<close> block is the loop followed by
  the export and the success message; the handler prints the exception that left the
  block; the \<open>finally\<close> block runs in every case. The method returns nothing; the
  model returns the state it leaves.
\<close>

definition generate_audio ::
  "('f, 'a) engine \<Rightarrow> string \<Rightarrow> string \<Rightarrow> 'f book_to_speech \<Rightarrow> 'f book_to_speech" where
  "generate_audio eng text output_filename self =
     (let sentences = re_split_sentences text;
          output_audio = [Silence 100];
          temp_files = []
      in
      (case for_loop eng sentences (List.enumerate 0 sentences) (output_audio, temp_files, self) of
         (Some e, output_audio1, temp_files1, self1) \<Rightarrow>
           remove_files temp_files1 (print (''Generation Error: '' @ str_of_error e) self1)
       | (None, output_audio1, temp_files1, self1) \<Rightarrow>
           (case write_file (''output_audio/'' @ output_filename) (export_wav eng output_audio1) self1 of
              (Some e, self2) \<Rightarrow>
                remove_files temp_files1 (print (''Generation Error: '' @ str_of_error e) self2)
            | (None, self2) \<Rightarrow>
                remove_files temp_files1
                  (print (''Successfully generated: output_audio/'' @ output_filename) self2))))"

text \<open>The sounds of a track, in order.\<close>

fun sounds :: "'a piece list \<Rightarrow> 'a list" where
  "sounds [] = []"
| "sounds (Silence d # ps) = sounds ps"
| "sounds (Sound a # ps) = a # sounds ps"

text \<open>
  The track as the specification words it, for comparison with the code: the leading
  silence, then the segments in order with the trailing silence between each two
  neighbours, ending with the last segment.
\<close>

fun silence_between :: "'a list \<Rightarrow> 'a piece list" where
  "silence_between [] = []"
| "silence_between [s] = [Sound s]"
| "silence_between (s # t # ss) = Sound s # Silence 200 # silence_between (t # ss)"

definition track_spec :: "'a list \<Rightarrow> 'a piece list" where
  "track_spec segs = Silence 100 # silence_between segs"

text \<open>
  The segment of one utterance (lines 105 to 116): synthesized to the temporary file,
  loaded from it, and changed in speed when the speed is not 1.
\<close>

definition synthesize_segment ::
  "('f, 'a) engine \<Rightarrow> real \<Rightarrow> string \<Rightarrow> string \<Rightarrow> string \<Rightarrow> error + 'a" where
  "synthesize_segment eng sp dialogue voice temp_path =
     (case tts_to_file eng dialogue voice temp_path sp of
        Failed e partial \<Rightarrow> Inl e
      | Written f \<Rightarrow>
          (case from_wav eng f of
             Inl e \<Rightarrow> Inl e
           | Inr segment \<Rightarrow> if sp \<noteq> 1 then change_speed eng sp segment else Inr segment))"

text \<open>
  The segment of the sentence at index \<open>idx\<close>, with the voice that the registry of
  \<open>self\<close> gives the speaker of the sentence.
\<close>

definition segment_of ::
  "('f, 'a) engine \<Rightarrow> 'f book_to_speech \<Rightarrow> nat \<Rightarrow> string \<Rightarrow> error + 'a" where
  "segment_of eng self idx sentence =
     (case detect_speaker_ml (nlp eng) sentence of
        (speaker, dialogue) \<Rightarrow>
          synthesize_segment eng (speed self) dialogue (fst (assign_voice speaker self))
            (temp_path_of idx))"

text \<open>
  A later state of the registry keeps the speed and every binding of an earlier one.
\<close>

definition registry_extends :: "'f book_to_speech \<Rightarrow> 'f book_to_speech \<Rightarrow> bool" where
  "registry_extends self self1 \<longleftrightarrow>
     speed self1 = speed self \<and>
     (\<forall>l v. map_of (character_voices self) l = Some v \<longrightarrow>
            map_of (character_voices self1) l = Some v)"

text \<open>
  Engines for the examples. File contents are tracks. The first engine writes one
  sound per utterance and never fails; the second fails to synthesize the sentence at
  index 1; the third writes files that do not decode.
\<close>

definition good_engine :: "(string piece list, string) engine" where
  "good_engine =
     \<lparr> nlp = (\<lambda>s. []),
       tts_to_file = (\<lambda>txt voice path sp. Written [Sound (voice @ '':'' @ txt)]),
       from_wav = (\<lambda>f. case f of [Sound a] \<Rightarrow> Inr a | _ \<Rightarrow> Inl (RuntimeError ''bad wav'')),
       change_speed = (\<lambda>sp a. Inr (a @ ''~'')),
       export_wav = (\<lambda>track. Written track) \<rparr>"

definition failing_engine :: "(string piece list, string) engine" where
  "failing_engine =
     good_engine\<lparr> tts_to_file :=
       (\<lambda>txt voice path sp.
          if path = ''output_audio/temp_1.wav'' then Failed (RuntimeError ''synthesis failed'') None
          else Written [Sound (voice @ '':'' @ txt)]) \<rparr>"

definition corrupt_engine :: "(string piece list, string) engine" where
  "corrupt_engine =
     good_engine\<lparr> tts_to_file := (\<lambda>txt voice path sp. Written []) \<rparr>"

section \<open>Properties of the voice registry\<close>

lemmas eval_registry = assign_voice_def init_def print_def py_getitem_def

lemma assign_voice_binds:
  "map_of (character_voices (snd (assign_voice c self))) c = Some (fst (assign_voice c self))"
  by (simp add: assign_voice_def print_def update_conv' split: option.splits sum.splits)

lemma assign_voice_keeps:
  assumes "map_of (character_voices self) l = Some v"
  shows "map_of (character_voices (snd (assign_voice c self))) l = Some v"
  using assms
  by (auto simp: assign_voice_def print_def update_conv' split: option.splits sum.splits)

lemma snd_assign_voices_Cons:
  "snd (assign_voices (c # cs) self) = snd (assign_voices cs (snd (assign_voice c self)))"
  by (simp split: prod.splits)

lemma fst_assign_voices_Cons:
  "fst (assign_voices (c # cs) self) =
     fst (assign_voice c self) # fst (assign_voices cs (snd (assign_voice c self)))"
  by (simp split: prod.splits)

lemma assign_voices_keeps:
  assumes "map_of (character_voices self) l = Some v"
  shows "map_of (character_voices (snd (assign_voices cs self))) l = Some v"
  using assms
proof (induction cs arbitrary: self)
  case Nil
  then show ?case by simp
next
  case (Cons c cs)
  have "map_of (character_voices (snd (assign_voice c self))) l = Some v"
    by (rule assign_voice_keeps [OF Cons.prems])
  from Cons.IH [OF this] show ?case
    by (simp only: snd_assign_voices_Cons)
qed

lemma assign_voice_bound:
  assumes "map_of (character_voices self) l = Some v"
  shows "assign_voice l self = (v, self)"
  using assms by (simp add: assign_voice_def)

text \<open>
  C1 (voice-binding stability). After a first call of \<open>assign_voice\<close> with a label,
  and whatever labels are assigned in between, a later call with the same label returns
  the voice the first call returned and leaves the whole state as it was: the dict, the
  cursor, the disk and the printed lines.
\<close>

theorem assign_voice_stable:
  "assign_voice label (snd (assign_voices others (snd (assign_voice label self)))) =
     (fst (assign_voice label self), snd (assign_voices others (snd (assign_voice label self))))"
proof -
  have "map_of (character_voices (snd (assign_voices others (snd (assign_voice label self))))) label =
          Some (fst (assign_voice label self))"
    by (rule assign_voices_keeps [OF assign_voice_binds])
  then show ?thesis
    by (rule assign_voice_bound)
qed

theorem assign_voice_stable_witness:
  "assign_voice ''Alice'' (snd (assign_voices [''Bob'', ''narrator'', ''Alice'']
       (snd (assign_voice ''Alice'' (init 1 (Map.empty :: string \<rightharpoonup> string)))))) =
     (''p226'', snd (assign_voices [''Bob'', ''narrator'', ''Alice'']
       (snd (assign_voice ''Alice'' (init 1 (Map.empty :: string \<rightharpoonup> string))))))"
proof -
  have "fst (assign_voice ''Alice'' (init 1 (Map.empty :: string \<rightharpoonup> string))) = ''p226''"
    by (simp add: eval_registry)
  with assign_voice_stable [of "''Alice''" "[''Bob'', ''narrator'', ''Alice'']"
      "init 1 (Map.empty :: string \<rightharpoonup> string)"]
  show ?thesis by simp
qed

lemma first_seen_filter: "first_seen (filter P zs) = filter P (first_seen zs)"
proof (induction zs)
  case Nil
  then show ?case by simp
next
  case (Cons z zs)
  show ?case
  proof (cases "P z")
    case True
    then show ?thesis using Cons.IH by (simp add: conj_commute)
  next
    case False
    then have "filter (\<lambda>x. x \<noteq> z \<and> P x) (first_seen zs) = filter P (first_seen zs)"
      by (intro filter_cong) auto
    with False show ?thesis using Cons.IH by simp
  qed
qed

lemma set_first_seen [simp]: "set (first_seen xs) = set xs"
  by (induction xs) auto

lemma distinct_first_seen [simp]: "distinct (first_seen xs)"
  by (induction xs) auto

lemma first_seen_distinct: "distinct xs \<Longrightarrow> first_seen xs = xs"
  by (induction xs) (auto simp: filter_id_conv)

lemma first_seen_again:
  "x \<in> set xs \<Longrightarrow> first_seen (xs @ x # ys) = first_seen (xs @ ys)"
proof (induction xs)
  case Nil
  then show ?case by simp
next
  case (Cons a xs)
  show ?case
  proof (cases "a = x")
    case True
    have "filter (\<lambda>y. y \<noteq> x) (first_seen (xs @ x # ys)) = first_seen (filter (\<lambda>y. y \<noteq> x) (xs @ x # ys))"
      by (simp only: first_seen_filter)
    also have "\<dots> = first_seen (filter (\<lambda>y. y \<noteq> x) (xs @ ys))"
      by simp
    also have "\<dots> = filter (\<lambda>y. y \<noteq> x) (first_seen (xs @ ys))"
      by (simp only: first_seen_filter)
    finally show ?thesis using True by simp
  next
    case False
    with Cons.prems have "x \<in> set xs" by simp
    from Cons.IH [OF this] show ?thesis by simp
  qed
qed

lemma length_first_seen: "length (first_seen xs) = card (set xs)"
  by (metis distinct_card distinct_first_seen set_first_seen)

lemma update_fresh:
  "map_of al k = None \<Longrightarrow> AList.update k v al = al @ [(k, v)]"
  by (induction al) (auto split: if_splits)

lemma keys_assign_voice:
  "map fst (character_voices (snd (assign_voice c self))) =
     (if c \<in> set (map fst (character_voices self)) then map fst (character_voices self)
      else map fst (character_voices self) @ [c])"
proof (cases "map_of (character_voices self) c")
  case None
  then have "c \<notin> fst ` set (character_voices self)"
    by (simp add: map_of_eq_None_iff)
  with None show ?thesis
    by (simp add: assign_voice_def print_def update_fresh split: sum.splits)
next
  case (Some v)
  then have "c \<in> fst ` set (character_voices self)"
    by (metis map_of_eq_None_iff option.distinct(1))
  with Some show ?thesis
    by (simp add: assign_voice_def)
qed

lemma registry_ok_index:
  assumes "registry_ok self"
  shows "py_getitem (available_voices self) (next_voice_index self) =
           Inr (available_voices self ! (length (character_voices self) mod length (available_voices self)))"
proof -
  let ?n = "length (available_voices self)"
  from assms have n: "0 < ?n" and idx: "next_voice_index self = int (length (character_voices self)) mod int ?n"
    by (simp_all add: registry_ok_def)
  have "0 \<le> next_voice_index self" "next_voice_index self < int ?n"
    using n idx by simp_all
  moreover have "nat (next_voice_index self) = length (character_voices self) mod ?n"
    using idx by (simp add: nat_mod_as_int)
  ultimately show ?thesis
    by (simp add: py_getitem_def)
qed

lemma registry_ok_assign_voice:
  assumes "registry_ok self"
  shows "registry_ok (snd (assign_voice c self))"
proof (cases "map_of (character_voices self) c")
  case (Some v)
  then show ?thesis using assms by (simp add: assign_voice_def)
next
  case None
  let ?n = "length (available_voices self)"
  let ?L = "length (character_voices self)"
  from assms have n: "0 < ?n" by (simp add: registry_ok_def)
  have fresh: "c \<notin> set (map fst (character_voices self))"
    using None by (simp add: map_of_eq_None_iff)
  have "(int ?L mod int ?n + 1) mod int ?n = (int ?L + 1) mod int ?n"
    by (simp add: mod_add_left_eq)
  then show ?thesis
    using assms None fresh registry_ok_index [OF assms]
    by (simp add: assign_voice_def print_def update_fresh registry_ok_def add.commute)
qed

lemma registry_ok_assign_voices:
  assumes "registry_ok self"
  shows "registry_ok (snd (assign_voices cs self))"
  using assms
proof (induction cs arbitrary: self)
  case Nil
  then show ?case by simp
next
  case (Cons c cs)
  from Cons.IH [OF registry_ok_assign_voice [OF Cons.prems]] show ?case
    by (simp only: snd_assign_voices_Cons)
qed

lemma keys_assign_voices:
  assumes "distinct (map fst (character_voices self))"
  shows "map fst (character_voices (snd (assign_voices cs self))) =
           first_seen (map fst (character_voices self) @ cs)"
  using assms
proof (induction cs arbitrary: self)
  case Nil
  then show ?case by (simp add: first_seen_distinct)
next
  case (Cons c cs)
  let ?s1 = "snd (assign_voice c self)"
  have d1: "distinct (map fst (character_voices ?s1))"
    using Cons.prems by (simp add: keys_assign_voice)
  have "map fst (character_voices (snd (assign_voices (c # cs) self))) =
          first_seen (map fst (character_voices ?s1) @ cs)"
    using Cons.IH [OF d1] by (simp only: snd_assign_voices_Cons)
  also have "\<dots> = first_seen (map fst (character_voices self) @ c # cs)"
    by (simp add: keys_assign_voice first_seen_again)
  finally show ?case .
qed

lemma available_voices_assign_voice [simp]:
  "available_voices (snd (assign_voice c self)) = available_voices self"
  by (simp add: assign_voice_def print_def split: option.splits sum.splits)

lemma available_voices_assign_voices [simp]:
  "available_voices (snd (assign_voices cs self)) = available_voices self"
  by (induction cs arbitrary: self) (simp_all add: snd_assign_voices_Cons del: assign_voices.simps(2))

lemma registry_ok_init: "registry_ok (init speed0 disk)"
  by (simp add: registry_ok_def init_def upt_rec)

lemma returned_voices:
  "map Some (fst (assign_voices cs self)) =
     map (map_of (character_voices (snd (assign_voices cs self)))) cs"
proof (induction cs arbitrary: self)
  case Nil
  then show ?case by simp
next
  case (Cons c cs)
  let ?s1 = "snd (assign_voice c self)"
  have "map_of (character_voices (snd (assign_voices cs ?s1))) c = Some (fst (assign_voice c self))"
    by (rule assign_voices_keeps [OF assign_voice_binds])
  with Cons.IH [of ?s1] show ?case
    by (simp add: snd_assign_voices_Cons fst_assign_voices_Cons del: assign_voices.simps(2))
qed

lemma pool_distinct:
  assumes "distinct pool" "m \<le> length pool"
  shows "distinct (map (\<lambda>k. pool ! (k mod length pool)) [0..<m])"
proof -
  have eq: "map (\<lambda>k. pool ! (k mod length pool)) [0..<m] = map (\<lambda>k. pool ! k) [0..<m]"
    using assms(2) by (intro map_cong) auto
  have "inj_on (\<lambda>k. pool ! k) (set [0..<m])"
    using assms by (auto simp: inj_on_def nth_eq_iff_index_eq)
  then show ?thesis
    unfolding eq by (simp add: distinct_map)
qed

text \<open>
  C2 (first-encounter distinctness). After any sequence \<open>cs\<close> of calls of
  \<open>assign_voice\<close> on a fresh registry: the labels are bound in the order of their
  first encounter, after the narrator; the \<open>k\<close>-th binding (the narrator's being
  number 0) holds the pool voice at index \<open>k\<close> modulo the pool size; as long as
  there are no more bindings than pool voices (the narrator and at most nine other
  labels) the bound voices are pairwise distinct; every call returned the voice its
  label is bound to; the cursor is the number of bindings modulo the pool size, and
  binding a label never seen before moves it to \<open>(next_voice_index + 1) mod\<close> pool
  size.
\<close>

theorem first_encounter_voices:
  fixes disk :: "string \<rightharpoonup> 'f" and cs :: "string list" and speed0 :: real
  defines "self \<equiv> snd (assign_voices cs (init speed0 disk))"
  shows "map fst (character_voices self) = first_seen (''narrator'' # cs)
       \<and> map snd (character_voices self) =
           map (\<lambda>k. available_voices self ! (k mod length (available_voices self)))
             [0..<length (first_seen (''narrator'' # cs))]
       \<and> (length (first_seen (''narrator'' # cs)) \<le> length (available_voices self) \<longrightarrow>
            distinct (map snd (character_voices self)))
       \<and> map Some (fst (assign_voices cs (init speed0 disk))) = map (map_of (character_voices self)) cs
       \<and> next_voice_index self =
           int (length (first_seen (''narrator'' # cs))) mod int (length (available_voices self))
       \<and> (c \<notin> set (''narrator'' # cs) \<longrightarrow>
            next_voice_index (snd (assign_voice c self)) =
              (next_voice_index self + 1) mod int (length (available_voices self)))"
proof -
  have ok: "registry_ok self"
    unfolding self_def by (rule registry_ok_assign_voices [OF registry_ok_init])
  have keys: "map fst (character_voices self) = first_seen (''narrator'' # cs)"
    unfolding self_def using keys_assign_voices [of "init speed0 disk" cs]
    by (simp add: init_def)
  have len: "length (character_voices self) = length (first_seen (''narrator'' # cs))"
    using keys by (metis length_map)
  have pool: "available_voices self = available_voices (init speed0 disk)"
    unfolding self_def by simp
  have dpool: "distinct (available_voices self)"
    unfolding pool by (simp add: init_def)
  have vals: "map snd (character_voices self) =
           map (\<lambda>k. available_voices self ! (k mod length (available_voices self)))
             [0..<length (first_seen (''narrator'' # cs))]"
    using ok len by (simp add: registry_ok_def)
  have dist: "length (first_seen (''narrator'' # cs)) \<le> length (available_voices self) \<longrightarrow>
            distinct (map snd (character_voices self))"
    unfolding vals using pool_distinct [OF dpool] by blast
  have ret: "map Some (fst (assign_voices cs (init speed0 disk))) = map (map_of (character_voices self)) cs"
    unfolding self_def by (rule returned_voices)
  have cur: "next_voice_index self =
           int (length (first_seen (''narrator'' # cs))) mod int (length (available_voices self))"
    using ok len by (simp add: registry_ok_def)
  have adv: "c \<notin> set (''narrator'' # cs) \<longrightarrow>
            next_voice_index (snd (assign_voice c self)) =
              (next_voice_index self + 1) mod int (length (available_voices self))"
  proof
    assume "c \<notin> set (''narrator'' # cs)"
    then have "c \<notin> set (map fst (character_voices self))"
      using keys by (metis set_first_seen)
    then have "map_of (character_voices self) c = None"
      by (simp add: map_of_eq_None_iff)
    then show "next_voice_index (snd (assign_voice c self)) =
              (next_voice_index self + 1) mod int (length (available_voices self))"
      using registry_ok_index [OF ok] by (simp add: assign_voice_def print_def)
  qed
  from keys vals dist ret cur adv show ?thesis by blast
qed

theorem first_encounter_voices_witness:
  "character_voices (snd (assign_voices [''Alice'', ''Bob'', ''Alice'', ''narrator'', ''Carol'']
        (init 1 (Map.empty :: string \<rightharpoonup> string)))) =
     [(''narrator'', ''p225''), (''Alice'', ''p226''), (''Bob'', ''p227''), (''Carol'', ''p228'')]
   \<and> length (first_seen (''narrator'' # [''Alice'', ''Bob'', ''Alice'', ''narrator'', ''Carol''])) \<le>
       length (available_voices (snd (assign_voices [''Alice'', ''Bob'', ''Alice'', ''narrator'', ''Carol'']
         (init 1 (Map.empty :: string \<rightharpoonup> string)))))
   \<and> distinct (map snd (character_voices
         (snd (assign_voices [''Alice'', ''Bob'', ''Alice'', ''narrator'', ''Carol'']
           (init 1 (Map.empty :: string \<rightharpoonup> string))))))
   \<and> ''Dave'' \<notin> set (''narrator'' # [''Alice'', ''Bob'', ''Alice'', ''narrator'', ''Carol''])
   \<and> next_voice_index (snd (assign_voice ''Dave''
         (snd (assign_voices [''Alice'', ''Bob'', ''Alice'', ''narrator'', ''Carol'']
           (init 1 (Map.empty :: string \<rightharpoonup> string)))))) = 5"
proof -
  let ?cs = "[''Alice'', ''Bob'', ''Alice'', ''narrator'', ''Carol'']"
  let ?self = "snd (assign_voices ?cs (init 1 (Map.empty :: string \<rightharpoonup> string)))"
  have cv: "character_voices ?self =
     [(''narrator'', ''p225''), (''Alice'', ''p226''), (''Bob'', ''p227''), (''Carol'', ''p228'')]"
    by (simp add: eval_registry)
  have pool: "length (available_voices ?self) = 10"
    by (simp add: init_def del: assign_voices.simps)
  have few: "length (first_seen (''narrator'' # ?cs)) \<le> length (available_voices ?self)"
    unfolding pool by simp
  have fresh: "''Dave'' \<notin> set (''narrator'' # ?cs)"
    by simp
  have cur: "next_voice_index ?self = 4"
    by (simp add: eval_registry)
  from first_encounter_voices [of ?cs 1 "Map.empty :: string \<rightharpoonup> string" "''Dave''"]
  have "distinct (map snd (character_voices ?self))"
    and "next_voice_index (snd (assign_voice ''Dave'' ?self)) =
           (next_voice_index ?self + 1) mod int (length (available_voices ?self))"
    using few fresh by blast+
  then show ?thesis
    using cv few fresh unfolding cur pool by simp
qed

text \<open>
  C9 (the fallback branch is dead). After any sequence of calls of \<open>assign_voice\<close>
  on a fresh registry the pool is not empty and the cursor is a valid index into it, so
  the indexing \<open>available_voices[next_voice_index]\<close> returns an element and never
  raises \<open>IndexError\<close>: the handler that binds \<open>"p225"\<close> is never entered.
\<close>

theorem cursor_always_valid:
  fixes disk :: "string \<rightharpoonup> 'f" and cs :: "string list" and speed0 :: real
  defines "self \<equiv> snd (assign_voices cs (init speed0 disk))"
  shows "available_voices self \<noteq> []
       \<and> 0 \<le> next_voice_index self
       \<and> next_voice_index self < int (length (available_voices self))
       \<and> py_getitem (available_voices self) (next_voice_index self) =
           Inr (available_voices self ! nat (next_voice_index self))"
proof -
  have ok: "registry_ok self"
    unfolding self_def by (rule registry_ok_assign_voices [OF registry_ok_init])
  then have n: "0 < length (available_voices self)"
    and idx: "next_voice_index self =
       int (length (character_voices self)) mod int (length (available_voices self))"
    by (simp_all add: registry_ok_def)
  have "0 \<le> next_voice_index self" "next_voice_index self < int (length (available_voices self))"
    using n idx by simp_all
  then show ?thesis using n by (simp add: py_getitem_def)
qed

theorem cursor_always_valid_witness:
  "py_getitem
     (available_voices (snd (assign_voices
        [''Ann'', ''Ben'', ''Cal'', ''Dee'', ''Eve'', ''Fay'', ''Gus'', ''Hal'', ''Ivy'', ''Jon'', ''Kim'']
        (init 1 (Map.empty :: string \<rightharpoonup> string)))))
     (next_voice_index (snd (assign_voices
        [''Ann'', ''Ben'', ''Cal'', ''Dee'', ''Eve'', ''Fay'', ''Gus'', ''Hal'', ''Ivy'', ''Jon'', ''Kim'']
        (init 1 (Map.empty :: string \<rightharpoonup> string))))) = Inr ''p227''"
proof -
  let ?self = "snd (assign_voices
        [''Ann'', ''Ben'', ''Cal'', ''Dee'', ''Eve'', ''Fay'', ''Gus'', ''Hal'', ''Ivy'', ''Jon'', ''Kim'']
        (init 1 (Map.empty :: string \<rightharpoonup> string)))"
  have cur: "next_voice_index ?self = 2"
    by (simp add: eval_registry)
  have pool: "available_voices ?self = [''p225'', ''p226'', ''p227'', ''p228'', ''p229'',
                           ''p230'', ''p231'', ''p232'', ''p233'', ''p234'']"
    by (simp add: init_def del: assign_voices.simps)
  from cursor_always_valid [of "[''Ann'', ''Ben'', ''Cal'', ''Dee'', ''Eve'', ''Fay'', ''Gus'', ''Hal'',
      ''Ivy'', ''Jon'', ''Kim'']" 1 "Map.empty :: string \<rightharpoonup> string"]
  have "py_getitem (available_voices ?self) (next_voice_index ?self) =
          Inr (available_voices ?self ! nat (next_voice_index ?self))"
    by blast
  then show ?thesis
    unfolding cur pool by simp
qed

text \<open>
  C10 (the narrator's voice is shared after the pool wraps). The pool holds ten voices,
  the first being \<open>"p225"\<close>; the narrator is bound to it from the start and the
  cursor starts at 1. Once nine distinct labels other than the narrator have been
  assigned, the cursor is back at 0, so the next label never seen before (the tenth) is
  bound to \<open>"p225"\<close> by the regular indexing, while the narrator keeps resolving to
  \<open>"p225"\<close> as well.
\<close>

theorem tenth_label_gets_narrator_voice:
  fixes disk :: "string \<rightharpoonup> 'f" and cs :: "string list" and speed0 :: real
  defines "self \<equiv> snd (assign_voices cs (init speed0 disk))"
  assumes nine: "card (set cs - {''narrator''}) = 9" and fresh: "c \<notin> set (''narrator'' # cs)"
  shows "length (available_voices (init speed0 disk)) = 10
       \<and> available_voices (init speed0 disk) ! 0 = ''p225''
       \<and> character_voices (init speed0 disk) = [(''narrator'', ''p225'')]
       \<and> next_voice_index (init speed0 disk) = 1
       \<and> next_voice_index self = 0
       \<and> py_getitem (available_voices self) (next_voice_index self) = Inr ''p225''
       \<and> fst (assign_voice c self) = ''p225''
       \<and> map_of (character_voices (snd (assign_voice c self))) c = Some ''p225''
       \<and> map_of (character_voices (snd (assign_voice c self))) ''narrator'' = Some ''p225''
       \<and> fst (assign_voice ''narrator'' (snd (assign_voice c self))) = ''p225''"
proof -
  have ok: "registry_ok self"
    unfolding self_def by (rule registry_ok_assign_voices [OF registry_ok_init])
  have keys: "map fst (character_voices self) = first_seen (''narrator'' # cs)"
    unfolding self_def using keys_assign_voices [of "init speed0 disk" cs]
    by (simp add: init_def)
  have "card (set (''narrator'' # cs)) = Suc (card (set cs - {''narrator''}))"
    by (simp add: card.insert_remove)
  then have "length (first_seen (''narrator'' # cs)) = 10"
    using nine by (simp only: length_first_seen)
  then have len: "length (character_voices self) = 10"
    using keys by (metis length_map)
  have pool: "available_voices self =
      [''p225'', ''p226'', ''p227'', ''p228'', ''p229'', ''p230'', ''p231'', ''p232'', ''p233'', ''p234'']"
    unfolding self_def by (simp add: init_def)
  have cur: "next_voice_index self = 0"
    using ok len pool by (simp add: registry_ok_def)
  have idx: "py_getitem (available_voices self) (next_voice_index self) = Inr ''p225''"
    using registry_ok_index [OF ok] len pool by simp
  have "c \<notin> set (map fst (character_voices self))"
    using fresh keys by (metis set_first_seen)
  then have unbound: "map_of (character_voices self) c = None"
    by (simp add: map_of_eq_None_iff)
  have got: "fst (assign_voice c self) = ''p225''"
    using unbound idx by (simp add: assign_voice_def)
  have bound: "map_of (character_voices (snd (assign_voice c self))) c = Some ''p225''"
    using assign_voice_binds [of c self] got by simp
  have "map_of (character_voices (init speed0 disk)) ''narrator'' = Some ''p225''"
    by (simp add: init_def)
  then have "map_of (character_voices self) ''narrator'' = Some ''p225''"
    unfolding self_def by (rule assign_voices_keeps)
  then have narr: "map_of (character_voices (snd (assign_voice c self))) ''narrator'' = Some ''p225''"
    by (rule assign_voice_keeps)
  then have again: "fst (assign_voice ''narrator'' (snd (assign_voice c self))) = ''p225''"
    by (simp add: assign_voice_bound)
  have start: "length (available_voices (init speed0 disk)) = 10"
    "available_voices (init speed0 disk) ! 0 = ''p225''"
    "character_voices (init speed0 disk) = [(''narrator'', ''p225'')]"
    "next_voice_index (init speed0 disk) = 1"
    by (simp_all add: init_def)
  from start cur idx got bound narr again show ?thesis by blast
qed

theorem tenth_label_gets_narrator_voice_witness:
  "card (set [''Ann'', ''Ben'', ''Cal'', ''Dee'', ''Eve'', ''Fay'', ''Gus'', ''Hal'', ''Ivy'', ''Ben'']
          - {''narrator''}) = 9
   \<and> ''Jon'' \<notin> set (''narrator'' #
        [''Ann'', ''Ben'', ''Cal'', ''Dee'', ''Eve'', ''Fay'', ''Gus'', ''Hal'', ''Ivy'', ''Ben''])
   \<and> fst (assign_voice ''Jon'' (snd (assign_voices
        [''Ann'', ''Ben'', ''Cal'', ''Dee'', ''Eve'', ''Fay'', ''Gus'', ''Hal'', ''Ivy'', ''Ben'']
        (init 1 (Map.empty :: string \<rightharpoonup> string))))) = ''p225''"
proof -
  have nine: "card (set [''Ann'', ''Ben'', ''Cal'', ''Dee'', ''Eve'', ''Fay'', ''Gus'', ''Hal'', ''Ivy'', ''Ben'']
          - {''narrator''}) = 9"
    by (simp add: card_insert_if)
  have fresh: "''Jon'' \<notin> set (''narrator'' #
        [''Ann'', ''Ben'', ''Cal'', ''Dee'', ''Eve'', ''Fay'', ''Gus'', ''Hal'', ''Ivy'', ''Ben''])"
    by simp
  from tenth_label_gets_narrator_voice [OF nine fresh, of 1 "Map.empty :: string \<rightharpoonup> string"]
  show ?thesis using nine fresh by blast
qed

section \<open>Properties of the speaker attribution\<close>

lemmas eval_strings = is_space_def is_terminal_def is_quote_def strip_def lower_def lower_char_def
  speech_verbs_def

lemma first_subject_None:
  "first_subject cs = None \<longleftrightarrow> (\<forall>child \<in> set cs. tok_dep child \<notin> set [''nsubj'', ''nsubjpass''])"
  by (induction cs) auto

lemma scan_tokens_no_subject:
  assumes "\<forall>tok \<in> set doc. \<not> (lower (tok_lemma tok) \<in> set speech_verbs \<and>
             (\<exists>child \<in> set (tok_children tok). tok_dep child \<in> set [''nsubj'', ''nsubjpass'']))"
  shows "scan_tokens doc speaker = speaker"
  using assms
proof (induction doc arbitrary: speaker)
  case Nil
  then show ?case by simp
next
  case (Cons tok rest)
  then have rest: "scan_tokens rest speaker = speaker" by simp
  show ?case
  proof (cases "lower (tok_lemma tok) \<in> set speech_verbs")
    case True
    with Cons.prems have "\<forall>child \<in> set (tok_children tok). tok_dep child \<notin> set [''nsubj'', ''nsubjpass'']"
      by auto
    then have "first_subject (tok_children tok) = None"
      by (simp only: first_subject_None)
    with True rest show ?thesis by simp
  next
    case False
    with rest show ?thesis by simp
  qed
qed

text \<open>
  C6 (attribution sentinels). When no token of the parse both has a speech verb as its
  lower-cased lemma and has a child with the dependency \<open>nsubj\<close> or
  \<open>nsubjpass\<close>, the speaker label is \<open>dialogue\<close> if the sentence contains a
  double or a single quote character and \<open>narrator\<close> otherwise.
\<close>

theorem sentinel_without_subject:
  assumes "\<forall>tok \<in> set (parse sentence). \<not> (lower (tok_lemma tok) \<in> set speech_verbs \<and>
             (\<exists>child \<in> set (tok_children tok). tok_dep child \<in> set [''nsubj'', ''nsubjpass'']))"
  shows "fst (detect_speaker_ml parse sentence) =
           (if CHR 0x22 \<in> set sentence \<or> CHR 0x27 \<in> set sentence then ''dialogue'' else ''narrator'')"
  using scan_tokens_no_subject [OF assms, of None]
  by (simp add: detect_speaker_ml_def quote_sentinel_def Let_def)

theorem sentinel_without_subject_witness:
  "list_all (\<lambda>tok. \<not> (lower (tok_lemma tok) \<in> set speech_verbs \<and>
         list_ex (\<lambda>child. tok_dep child \<in> set [''nsubj'', ''nsubjpass'']) (tok_children tok)))
      [Token ''The'' ''the'' ''det'' [],
       Token ''shout'' ''shout'' ''nsubj'' [Token ''The'' ''the'' ''det'' []],
       Token ''was'' ''be'' ''ROOT''
         [Token ''shout'' ''shout'' ''nsubj'' [], Token ''loud'' ''loud'' ''acomp'' []],
       Token ''loud'' ''loud'' ''acomp'' [],
       Token ''.'' ''.'' ''punct'' []]
   \<and> lower (tok_lemma (Token ''shout'' ''shout'' ''nsubj'' [Token ''The'' ''the'' ''det'' []]))
        \<in> set speech_verbs
   \<and> fst (detect_speaker_ml
        (\<lambda>s. [Token ''The'' ''the'' ''det'' [],
              Token ''shout'' ''shout'' ''nsubj'' [Token ''The'' ''the'' ''det'' []],
              Token ''was'' ''be'' ''ROOT''
                [Token ''shout'' ''shout'' ''nsubj'' [], Token ''loud'' ''loud'' ''acomp'' []],
              Token ''loud'' ''loud'' ''acomp'' [],
              Token ''.'' ''.'' ''punct'' []])
        ''The shout was loud.'') = ''narrator''"
proof -
  let ?doc = "[Token ''The'' ''the'' ''det'' [],
               Token ''shout'' ''shout'' ''nsubj'' [Token ''The'' ''the'' ''det'' []],
               Token ''was'' ''be'' ''ROOT''
                 [Token ''shout'' ''shout'' ''nsubj'' [], Token ''loud'' ''loud'' ''acomp'' []],
               Token ''loud'' ''loud'' ''acomp'' [],
               Token ''.'' ''.'' ''punct'' []]"
  have h: "\<forall>tok \<in> set ?doc.
      \<not> (lower (tok_lemma tok) \<in> set speech_verbs \<and>
         (\<exists>child \<in> set (tok_children tok). tok_dep child \<in> set [''nsubj'', ''nsubjpass'']))"
    by (simp add: eval_strings)
  have "fst (detect_speaker_ml (\<lambda>s. ?doc) ''The shout was loud.'') = ''narrator''"
    using sentinel_without_subject [of "\<lambda>s. ?doc" "''The shout was loud.''", OF h] by simp
  with h show ?thesis by (simp add: list_all_iff list_ex_iff eval_strings)
qed





section \<open>Properties of the sentence segmentation\<close>

lemma split_cut:
  assumes "is_space c \<and> cur \<noteq> [] \<and> is_terminal (last cur)"
  shows "split_after_terminal cur (c # cs) = cur # split_after_terminal [] (dropWhile is_space cs)"
  using assms by simp

lemma split_keep:
  assumes "\<not> (is_space c \<and> cur \<noteq> [] \<and> is_terminal (last cur))"
  shows "split_after_terminal cur (c # cs) = split_after_terminal (cur @ [c]) cs"
  using assms by (simp only: split_after_terminal.simps if_False)

lemma split_nonempty: "split_after_terminal cur rest \<noteq> []"
  by (induction cur rest rule: split_after_terminal.induct) auto

lemma split_butlast_terminal:
  "\<forall>p \<in> set (butlast (split_after_terminal cur rest)). p \<noteq> [] \<and> is_terminal (last p)"
proof (induction cur rest rule: split_after_terminal.induct)
  case (1 cur)
  then show ?case by simp
next
  case (2 cur c cs)
  show ?case
  proof (cases "is_space c \<and> cur \<noteq> [] \<and> is_terminal (last cur)")
    case True
    from 2(1) [OF True] True show ?thesis
      by (simp only: split_cut [OF True]) (simp add: split_nonempty)
  next
    case False
    from 2(2) [OF False] show ?thesis by (simp only: split_keep [OF False])
  qed
qed

lemma split_hd:
  "\<exists>pre. hd (split_after_terminal cur rest) = cur @ pre \<and> take (length pre) rest = pre"
proof (induction cur rest rule: split_after_terminal.induct)
  case (1 cur)
  then show ?case by simp
next
  case (2 cur c cs)
  show ?case
  proof (cases "is_space c \<and> cur \<noteq> [] \<and> is_terminal (last cur)")
    case True
    then have "hd (split_after_terminal cur (c # cs)) = cur @ []" by simp
    then show ?thesis by (intro exI [of _ "[]"]) simp
  next
    case False
    with 2 obtain pre where pre: "hd (split_after_terminal (cur @ [c]) cs) = (cur @ [c]) @ pre"
      "take (length pre) cs = pre" by blast
    with False have "hd (split_after_terminal cur (c # cs)) = cur @ (c # pre)"
      by auto
    moreover have "take (length (c # pre)) (c # cs) = c # pre"
      using pre(2) by simp
    ultimately show ?thesis by blast
  qed
qed

lemma split_hd_after_spaces:
  "hd (split_after_terminal [] (dropWhile is_space cs)) = [] \<or>
   \<not> is_space (hd (hd (split_after_terminal [] (dropWhile is_space cs))))"
proof -
  obtain pre where pre: "hd (split_after_terminal [] (dropWhile is_space cs)) = pre"
    "take (length pre) (dropWhile is_space cs) = pre"
    using split_hd [of "[]" "dropWhile is_space cs"] by auto
  show ?thesis
  proof (cases pre)
    case Nil
    with pre show ?thesis by simp
  next
    case (Cons a as)
    with pre(2) have "dropWhile is_space cs \<noteq> []" "hd (dropWhile is_space cs) = a"
      by (cases "dropWhile is_space cs"; simp)+
    then have "\<not> is_space a"
      using hd_dropWhile [of is_space cs] by simp
    with Cons pre show ?thesis by simp
  qed
qed

lemma split_tl_no_leading_space:
  "\<forall>p \<in> set (tl (split_after_terminal cur rest)). p = [] \<or> \<not> is_space (hd p)"
proof (induction cur rest rule: split_after_terminal.induct)
  case (1 cur)
  then show ?case by simp
next
  case (2 cur c cs)
  show ?case
  proof (cases "is_space c \<and> cur \<noteq> [] \<and> is_terminal (last cur)")
    case True
    let ?rec = "split_after_terminal [] (dropWhile is_space cs)"
    have rec: "?rec = hd ?rec # tl ?rec"
      using split_nonempty [of "[]" "dropWhile is_space cs"] by simp
    have "\<forall>p \<in> set ?rec. p = [] \<or> \<not> is_space (hd p)"
      using 2(1) [OF True] split_hd_after_spaces [of cs] by (subst rec) auto
    then show ?thesis by (simp only: split_cut [OF True] list.sel)
  next
    case False
    from 2(2) [OF False] show ?thesis by (simp only: split_keep [OF False])
  qed
qed

lemma has_boundary_snoc:
  "has_boundary (cur @ [c]) \<longleftrightarrow>
     has_boundary cur \<or> (cur \<noteq> [] \<and> is_terminal (last cur) \<and> is_space c)"
  by (induction cur rule: has_boundary.induct) auto

lemma split_no_boundary:
  "\<not> has_boundary cur \<Longrightarrow> \<forall>p \<in> set (split_after_terminal cur rest). \<not> has_boundary p"
proof (induction cur rest rule: split_after_terminal.induct)
  case (1 cur)
  then show ?case by simp
next
  case (2 cur c cs)
  show ?case
  proof (cases "is_space c \<and> cur \<noteq> [] \<and> is_terminal (last cur)")
    case True
    have "\<not> has_boundary []" by simp
    from 2(1) [OF True this] 2(3) show ?thesis
      by (simp only: split_cut [OF True]) simp
  next
    case False
    with 2(3) have "\<not> has_boundary (cur @ [c])"
      by (simp only: has_boundary_snoc) blast
    from 2(2) [OF False this] show ?thesis by (simp only: split_keep [OF False])
  qed
qed

lemma split_weave:
  "\<exists>seps. length seps + 1 = length (split_after_terminal cur rest) \<and>
          (\<forall>s \<in> set seps. s \<noteq> [] \<and> list_all is_space s) \<and>
          weave (split_after_terminal cur rest) seps = cur @ rest"
proof (induction cur rest rule: split_after_terminal.induct)
  case (1 cur)
  show ?case by (intro exI [of _ "[]"]) simp
next
  case (2 cur c cs)
  show ?case
  proof (cases "is_space c \<and> cur \<noteq> [] \<and> is_terminal (last cur)")
    case True
    let ?rec = "split_after_terminal [] (dropWhile is_space cs)"
    from 2(1) [OF True] obtain seps where seps: "length seps + 1 = length ?rec"
      "\<forall>s \<in> set seps. s \<noteq> [] \<and> list_all is_space s" "weave ?rec seps = dropWhile is_space cs"
      by auto
    let ?sep = "c # takeWhile is_space cs"
    have "length (?sep # seps) + 1 = length (split_after_terminal cur (c # cs))"
      using seps(1) by (simp only: split_cut [OF True]) simp
    moreover have "\<forall>s \<in> set (?sep # seps). s \<noteq> [] \<and> list_all is_space s"
      using True seps(2) by (auto simp: list_all_iff dest: set_takeWhileD)
    moreover have "weave (split_after_terminal cur (c # cs)) (?sep # seps) = cur @ c # cs"
      using seps(3) by (simp only: split_cut [OF True]) simp
    ultimately show ?thesis by blast
  next
    case False
    from 2(2) [OF False] show ?thesis by (simp only: split_keep [OF False]) simp
  qed
qed

lemma strip_trimmed:
  "strip s \<noteq> [] \<Longrightarrow> \<not> is_space (hd (strip s)) \<and> \<not> is_space (last (strip s))"
proof -
  assume ne: "strip s \<noteq> []"
  let ?a = "dropWhile is_space s"
  let ?b = "dropWhile is_space (rev ?a)"
  have b: "?b \<noteq> []" using ne by (simp add: strip_def)
  then have "\<not> is_space (hd ?b)" by (rule hd_dropWhile)
  then have l: "\<not> is_space (last (strip s))"
    using b by (simp add: strip_def last_rev)
  have a: "?a \<noteq> []" using b by (cases ?a) simp_all
  then have ha: "\<not> is_space (hd ?a)" by (rule hd_dropWhile)
  have "last (rev ?a) = hd ?a" using a by (simp add: last_rev)
  obtain ys where "rev ?a = ys @ ?b"
    by (metis takeWhile_dropWhile_id)
  then have "?a = rev ?b @ rev ys"
    by (metis rev_append rev_rev_ident)
  then have "hd ?a = hd (rev ?b)"
    using b by (metis hd_append2 rev_is_Nil_conv)
  with ha have "\<not> is_space (hd (strip s))"
    by (simp add: strip_def)
  with l show ?thesis by simp
qed

text \<open>
  C8 (sentence segmentation). The text \<open>He said hi. She left! Did she go?\<close> yields
  exactly the three sentences, in order. For every text: the sentences are not empty
  and carry no whitespace at either end; every piece of the split but the last ends
  with a terminal punctuation character, every piece but the first starts with a
  character that is not whitespace, and no piece holds a terminal punctuation character
  followed by whitespace; and the text is the pieces with a non-empty run of whitespace
  between each two neighbours. So the split is exactly at the whitespace that follows
  terminal punctuation.
\<close>

theorem segmentation:
  "segment_sentences ''He said hi. She left! Did she go?'' =
     [''He said hi.'', ''She left!'', ''Did she go?'']
   \<and> (\<forall>s \<in> set (segment_sentences text). s \<noteq> [] \<and> \<not> is_space (hd s) \<and> \<not> is_space (last s))
   \<and> (\<forall>p \<in> set (butlast (re_split_sentences text)). p \<noteq> [] \<and> is_terminal (last p))
   \<and> (\<forall>p \<in> set (tl (re_split_sentences text)). p = [] \<or> \<not> is_space (hd p))
   \<and> (\<forall>p \<in> set (re_split_sentences text). \<not> has_boundary p)
   \<and> (\<exists>seps. length seps + 1 = length (re_split_sentences text) \<and>
         (\<forall>s \<in> set seps. s \<noteq> [] \<and> list_all is_space s) \<and>
         weave (re_split_sentences text) seps = text)"
proof -
  have ex: "segment_sentences ''He said hi. She left! Did she go?'' =
     [''He said hi.'', ''She left!'', ''Did she go?'']"
    by (simp add: segment_sentences_def re_split_sentences_def eval_strings)
  have trimmed: "\<forall>s \<in> set (segment_sentences text).
      s \<noteq> [] \<and> \<not> is_space (hd s) \<and> \<not> is_space (last s)"
    using strip_trimmed by (auto simp: segment_sentences_def)
  have ends: "\<forall>p \<in> set (butlast (re_split_sentences text)). p \<noteq> [] \<and> is_terminal (last p)"
    unfolding re_split_sentences_def by (rule split_butlast_terminal)
  have starts: "\<forall>p \<in> set (tl (re_split_sentences text)). p = [] \<or> \<not> is_space (hd p)"
    unfolding re_split_sentences_def by (rule split_tl_no_leading_space)
  have inner: "\<forall>p \<in> set (re_split_sentences text). \<not> has_boundary p"
    unfolding re_split_sentences_def by (rule split_no_boundary) simp
  have whole: "\<exists>seps. length seps + 1 = length (re_split_sentences text) \<and>
         (\<forall>s \<in> set seps. s \<noteq> [] \<and> list_all is_space s) \<and>
         weave (re_split_sentences text) seps = text"
    unfolding re_split_sentences_def using split_weave [of "[]" "text"] by simp
  from ex trimmed ends starts inner whole show ?thesis by blast
qed

theorem segmentation_witness:
  "re_split_sentences '' Hi. Go on!   Why? '' = ['' Hi.'', ''Go on!'', ''Why?'', []]
   \<and> segment_sentences '' Hi. Go on!   Why? '' = [''Hi.'', ''Go on!'', ''Why?'']
   \<and> ''Go on!'' \<in> set (segment_sentences '' Hi. Go on!   Why? '')
   \<and> \<not> is_space (hd ''Go on!'') \<and> \<not> is_space (last ''Go on!'')
   \<and> ''Go on!'' \<in> set (butlast (re_split_sentences '' Hi. Go on!   Why? ''))
   \<and> is_terminal (last ''Go on!'')
   \<and> ''Go on!'' \<in> set (tl (re_split_sentences '' Hi. Go on!   Why? ''))
   \<and> \<not> has_boundary ''Go on!''"
proof -
  let ?text = "'' Hi. Go on!   Why? ''"
  have pieces: "re_split_sentences ?text = ['' Hi.'', ''Go on!'', ''Why?'', []]"
    by (simp add: re_split_sentences_def eval_strings)
  have sents: "segment_sentences ?text = [''Hi.'', ''Go on!'', ''Why?'']"
    by (simp add: segment_sentences_def pieces) (simp add: eval_strings)
  have a: "''Go on!'' \<in> set (segment_sentences ?text)"
    unfolding sents by simp
  have b: "''Go on!'' \<in> set (butlast (re_split_sentences ?text))"
    unfolding pieces by simp
  have c: "''Go on!'' \<in> set (tl (re_split_sentences ?text))"
    unfolding pieces by simp
  have d: "''Go on!'' \<in> set (re_split_sentences ?text)"
    unfolding pieces by simp
  from segmentation [of ?text] a b c d
  have "\<not> is_space (hd ''Go on!'') \<and> \<not> is_space (last ''Go on!'')"
    "is_terminal (last ''Go on!'')" "\<not> has_boundary ''Go on!''"
    by blast+
  with pieces sents a b c show ?thesis by blast
qed

section \<open>The utterances of the sentences of a text\<close>












section \<open>Properties of the audio generation\<close>

lemmas eval_gen = generate_audio_def loop_body_def processing_line_def write_file_def load_wav_def detect_speaker_def
  temp_path_of_def detect_speaker_ml_def quote_sentinel_def re_split_sentences_def enumerate_eq_zip
  good_engine_def failing_engine_def corrupt_engine_def Let_def

lemma for_loop_append:
  "for_loop eng ss (xs @ ys) vars =
     (case for_loop eng ss xs vars of
        (Some e, vars1) \<Rightarrow> (Some e, vars1)
      | (None, vars1) \<Rightarrow> for_loop eng ss ys vars1)"
proof (induction xs arbitrary: vars)
  case Nil
  then show ?case by simp
next
  case (Cons x xs)
  obtain idx s where x: "x = (idx, s)" by (cases x)
  obtain exc vars1 where b: "loop_body eng ss idx s vars = (exc, vars1)"
    by (cases "loop_body eng ss idx s vars")
  show ?case
    using Cons.IH [of vars1] x b by (cases exc) simp_all
qed

lemma stdout_remove_files [simp]: "stdout (remove_files ps self) = stdout self"
  by (induction ps arbitrary: self) simp_all

lemma character_voices_remove_files [simp]:
  "character_voices (remove_files ps self) = character_voices self"
  by (induction ps arbitrary: self) simp_all

lemma character_voices_print [simp]: "character_voices (print line self) = character_voices self"
  by (simp add: print_def)

lemma character_voices_write_file [simp]:
  "character_voices (snd (write_file path w self)) = character_voices self"
  by (simp add: write_file_def split: written.splits option.splits)

lemma speed_assign_voice [simp]: "speed (snd (assign_voice c self)) = speed self"
  by (simp add: assign_voice_def print_def split: option.splits sum.splits)

lemma speed_print [simp]: "speed (print line self) = speed self"
  by (simp add: print_def)

lemma stdout_print [simp]: "stdout (print line self) = stdout self @ [line]"
  by (simp add: print_def)

lemma enumerate_nth_split:
  assumes "k < length xs"
  shows "List.enumerate 0 xs = take k (List.enumerate 0 xs) @ (k, xs ! k) # drop (Suc k) (List.enumerate 0 xs)"
proof -
  have "k < length (List.enumerate 0 xs)" using assms by simp
  then have "List.enumerate 0 xs = take k (List.enumerate 0 xs) @ (List.enumerate 0 xs) ! k # drop (Suc k) (List.enumerate 0 xs)"
    by (simp only: id_take_nth_drop [symmetric])
  moreover have "(List.enumerate 0 xs) ! k = (k, xs ! k)"
    using assms by (simp add: nth_enumerate_eq)
  ultimately show ?thesis by simp
qed

lemma detect_speaker_in_range:
  assumes "k < length sentences"
  shows "detect_speaker parse (int k) sentences = Inr (detect_speaker_ml parse (strip (sentences ! k)))"
  using assms by (simp add: detect_speaker_def py_getitem_def)

lemma speed_write_file [simp]: "speed (snd (write_file path w self)) = speed self"
  by (simp add: write_file_def split: written.splits option.splits)

lemma loop_body_empty:
  assumes "strip s0 = []"
  shows "loop_body eng ss idx s0 vars = (None, vars)"
  using assms by (simp add: loop_body_def split: prod.splits)

lemma loop_body_nonempty:
  assumes "strip s0 \<noteq> []"
    and "detect_speaker (nlp eng) (int idx) ss = Inr (speaker, dialogue)"
    and av: "assign_voice speaker self = (voice, self1)"
    and wf: "write_file (temp_path_of idx)
               (tts_to_file eng dialogue voice (temp_path_of idx) (speed self))
               (print (processing_line speaker dialogue) self1) = (exc, self3)"
  shows "loop_body eng ss idx s0 (audio, temps, self) =
     (case exc of
        Some e \<Rightarrow> (Some e, audio, temps, self3)
      | None \<Rightarrow>
         (case load_wav eng (temp_path_of idx) self3 of
            Inl e \<Rightarrow> (Some e, audio, temps, self3)
          | Inr segment \<Rightarrow>
             (case (if speed self \<noteq> 1 then change_speed eng (speed self) segment
                    else Inr segment) of
                Inl e \<Rightarrow> (Some e, audio, temps, self3)
              | Inr segment1 \<Rightarrow>
                 (None, audio @ [Sound segment1, Silence 200], temps @ [temp_path_of idx], self3))))"
proof -
  have sp1: "speed self1 = speed self"
    using speed_assign_voice [of speaker self] av by simp
  have "self3 = snd (write_file (temp_path_of idx)
      (tts_to_file eng dialogue voice (temp_path_of idx) (speed self))
      (print (processing_line speaker dialogue) self1))"
    by (simp add: wf)
  then have "speed self3 = speed (print (processing_line speaker dialogue) self1)"
    by (simp only: speed_write_file)
  then have sp3: "speed self3 = speed self"
    using sp1 by simp
  show ?thesis
    by (simp add: loop_body_def Let_def assms(1,2) av sp1 wf sp3 split: option.splits sum.splits)
qed

lemma registry_extends_refl: "registry_extends self self"
  by (simp add: registry_extends_def)

lemma registry_extends_trans:
  "registry_extends a b \<Longrightarrow> registry_extends b c \<Longrightarrow> registry_extends a c"
  by (simp add: registry_extends_def)

lemma registry_extends_assign_voice: "registry_extends self (snd (assign_voice c self))"
  by (simp add: registry_extends_def assign_voice_keeps)

lemma segment_of_extends:
  assumes "registry_extends self self1"
    and "map_of (character_voices self) (fst (detect_speaker_ml (nlp eng) sentence)) = Some v"
  shows "segment_of eng self1 idx sentence = segment_of eng self idx sentence"
proof -
  from assms have "map_of (character_voices self1) (fst (detect_speaker_ml (nlp eng) sentence)) = Some v"
    and "speed self1 = speed self"
    by (simp_all add: registry_extends_def)
  with assms(2) show ?thesis
    by (simp add: segment_of_def assign_voice_bound case_prod_beta)
qed

lemma loop_body_success:
  assumes ok: "loop_body eng ss idx s0 (audio, temps, self) = (None, audio1, temps1, self1)"
    and ne: "strip s0 \<noteq> []"
    and idx: "idx < length ss" "ss ! idx = s0"
  shows "\<exists>seg v. segment_of eng self1 idx (strip s0) = Inr seg \<and>
           audio1 = audio @ [Sound seg, Silence 200] \<and>
           temps1 = temps @ [temp_path_of idx] \<and>
           map_of (character_voices self1) (fst (detect_speaker_ml (nlp eng) (strip s0))) = Some v \<and>
           registry_extends self self1"
proof -
  obtain speaker dialogue where sd: "detect_speaker_ml (nlp eng) (strip s0) = (speaker, dialogue)"
    by (cases "detect_speaker_ml (nlp eng) (strip s0)")
  have ds: "detect_speaker (nlp eng) (int idx) ss = Inr (speaker, dialogue)"
    using detect_speaker_in_range [OF idx(1)] idx(2) sd by simp
  obtain voice selfa where av: "assign_voice speaker self = (voice, selfa)"
    by (cases "assign_voice speaker self")
  let ?self2 = "print (processing_line speaker dialogue) selfa"
  let ?w = "tts_to_file eng dialogue voice (temp_path_of idx) (speed self)"
  obtain exc self3 where wf: "write_file (temp_path_of idx) ?w ?self2 = (exc, self3)"
    by (cases "write_file (temp_path_of idx) ?w ?self2")
  note body = loop_body_nonempty [OF ne ds av wf, of audio temps]
  from ok body have exc: "exc = None"
    by (cases exc) simp_all
  with wf obtain f where w: "?w = Written f" and self3: "self3 = ?self2\<lparr>files := (files ?self2)(temp_path_of idx \<mapsto> f)\<rparr>"
    by (cases ?w) (auto simp: write_file_def split: option.splits)
  have load: "load_wav eng (temp_path_of idx) self3 = from_wav eng f"
    by (simp add: load_wav_def self3)
  from ok body exc obtain segment where seg: "from_wav eng f = Inr segment"
    by (cases "from_wav eng f") (simp_all add: load)
  from ok body exc seg obtain segment1 where
    seg1: "(if speed self \<noteq> 1 then change_speed eng (speed self) segment else Inr segment) = Inr segment1"
    by (cases "if speed self \<noteq> 1 then change_speed eng (speed self) segment else Inr segment")
       (simp_all add: load)
  from ok body exc seg seg1 have res: "audio1 = audio @ [Sound segment1, Silence 200]"
    "temps1 = temps @ [temp_path_of idx]" "self1 = self3"
    by (simp_all add: load)
  have cv: "character_voices self1 = character_voices selfa"
    by (simp add: res(3) self3)
  have sp: "speed self1 = speed self"
    using speed_assign_voice [of speaker self] av by (simp add: res(3) self3)
  have bound: "map_of (character_voices self1) speaker = Some voice"
    using assign_voice_binds [of speaker self] av by (simp add: cv)
  have ext: "registry_extends self self1"
    using registry_extends_assign_voice [of self speaker] av
    by (simp add: registry_extends_def cv sp)
  have "segment_of eng self1 idx (strip s0) = Inr segment1"
    using w seg seg1 bound
    by (simp add: segment_of_def sd synthesize_segment_def assign_voice_bound sp)
  with res bound ext sd show ?thesis by simp
qed

lemma for_loop_success:
  assumes "for_loop eng ss items (audio, temps, self) = (None, audio1, temps1, self1)"
    and "\<forall>(idx, s) \<in> set items. idx < length ss \<and> ss ! idx = s"
  shows "registry_extends self self1 \<and>
         (\<forall>(idx, s) \<in> set (filter (\<lambda>(idx, s). strip s \<noteq> []) items).
            \<exists>v. map_of (character_voices self1) (fst (detect_speaker_ml (nlp eng) (strip s))) = Some v) \<and>
         temps1 = temps @ map (\<lambda>(idx, s). temp_path_of idx) (filter (\<lambda>(idx, s). strip s \<noteq> []) items) \<and>
         (\<exists>segs. map Inr segs =
                   map (\<lambda>(idx, s). segment_of eng self1 idx (strip s))
                     (filter (\<lambda>(idx, s). strip s \<noteq> []) items) \<and>
                 audio1 = audio @ concat (map (\<lambda>S. [Sound S, Silence 200]) segs))"
  using assms
proof (induction items arbitrary: audio temps self)
  case Nil
  then show ?case by (simp add: registry_extends_refl)
next
  case (Cons item items)
  obtain idx s where item: "item = (idx, s)" by (cases item)
  from Cons.prems(2) item have idx: "idx < length ss" "ss ! idx = s"
    and rest: "\<forall>(idx, s) \<in> set items. idx < length ss \<and> ss ! idx = s"
    by auto
  obtain exc audio2 temps2 self2 where
    body: "loop_body eng ss idx s (audio, temps, self) = (exc, audio2, temps2, self2)"
    by (cases "loop_body eng ss idx s (audio, temps, self)") auto
  with Cons.prems(1) item have exc: "exc = None"
    by (cases exc) simp_all
  with Cons.prems(1) item body
  have loop: "for_loop eng ss items (audio2, temps2, self2) = (None, audio1, temps1, self1)"
    by simp
  note IH = Cons.IH [OF loop rest]
  show ?case
  proof (cases "strip s = []")
    case True
    with body exc have eqs: "audio2 = audio" "temps2 = temps" "self2 = self"
      by (simp_all add: loop_body_empty)
    have flt: "filter (\<lambda>(idx, s). strip s \<noteq> []) (item # items) =
                 filter (\<lambda>(idx, s). strip s \<noteq> []) items"
      using True item by simp
    show ?thesis
      unfolding flt using IH unfolding eqs .
  next
    case False
    from loop_body_success [OF body [unfolded exc] False idx]
    obtain seg v where seg: "segment_of eng self2 idx (strip s) = Inr seg"
      and a2: "audio2 = audio @ [Sound seg, Silence 200]"
      and t2: "temps2 = temps @ [temp_path_of idx]"
      and bound: "map_of (character_voices self2) (fst (detect_speaker_ml (nlp eng) (strip s))) = Some v"
      and ext: "registry_extends self self2"
      by blast
    from IH have ext2: "registry_extends self2 self1" by blast
    have seg1: "segment_of eng self1 idx (strip s) = Inr seg"
      using segment_of_extends [OF ext2 bound] seg by simp
    have bound1: "map_of (character_voices self1) (fst (detect_speaker_ml (nlp eng) (strip s))) = Some v"
      using ext2 bound by (simp add: registry_extends_def)
    from IH obtain segs where segs: "map Inr segs =
                   map (\<lambda>(idx, s). segment_of eng self1 idx (strip s))
                     (filter (\<lambda>(idx, s). strip s \<noteq> []) items)"
      "audio1 = audio2 @ concat (map (\<lambda>S. [Sound S, Silence 200]) segs)"
      by blast
    have "map Inr (seg # segs) =
                   map (\<lambda>(idx, s). segment_of eng self1 idx (strip s))
                     (filter (\<lambda>(idx, s). strip s \<noteq> []) (item # items)) \<and>
          audio1 = audio @ concat (map (\<lambda>S. [Sound S, Silence 200]) (seg # segs))"
      using segs seg1 False item a2 by simp
    then have ex: "\<exists>segs. map Inr segs =
                   map (\<lambda>(idx, s). segment_of eng self1 idx (strip s))
                     (filter (\<lambda>(idx, s). strip s \<noteq> []) (item # items)) \<and>
          audio1 = audio @ concat (map (\<lambda>S. [Sound S, Silence 200]) segs)"
      by blast
    have e: "registry_extends self self1"
      by (rule registry_extends_trans [OF ext ext2])
    have b: "\<forall>(idx, s) \<in> set (filter (\<lambda>(idx, s). strip s \<noteq> []) (item # items)).
            \<exists>v. map_of (character_voices self1) (fst (detect_speaker_ml (nlp eng) (strip s))) = Some v"
      using IH bound1 False item by auto
    have t: "temps1 = temps @ map (\<lambda>(idx, s). temp_path_of idx)
               (filter (\<lambda>(idx, s). strip s \<noteq> []) (item # items))"
      using IH t2 False item by simp
    from e b t ex show ?thesis by blast
  qed
qed

lemma sounds_append [simp]: "sounds (xs @ ys) = sounds xs @ sounds ys"
  by (induction xs rule: sounds.induct) simp_all

lemma sounds_padded [simp]: "sounds (concat (map (\<lambda>S. [Sound S, Silence d]) segs)) = segs"
  by (induction segs) simp_all

lemma track_spec_padded:
  "Silence 100 # concat (map (\<lambda>S. [Sound S, Silence 200]) segs) =
     (if segs = [] then track_spec [] else track_spec segs @ [Silence 200])"
proof -
  have "segs \<noteq> [] \<Longrightarrow>
      concat (map (\<lambda>S. [Sound S, Silence 200]) segs) = silence_between segs @ [Silence 200]"
    by (induction segs rule: silence_between.induct) simp_all
  then show ?thesis by (simp add: track_spec_def)
qed

lemma enumerate_in_range:
  "\<forall>(idx, s) \<in> set (List.enumerate 0 xs). idx < length xs \<and> xs ! idx = s"
  by (auto simp: in_set_enumerate_eq)

lemma nonempty_enumerate:
  "map (\<lambda>(idx, s). strip s) (filter (\<lambda>(idx, s). strip s \<noteq> []) (List.enumerate n xs)) =
     filter (\<lambda>s. s \<noteq> []) (map strip xs)"
  by (induction xs arbitrary: n) simp_all

lemma nonempty_sentences:
  "map (\<lambda>(idx, s). strip s)
     (filter (\<lambda>(idx, s). strip s \<noteq> []) (List.enumerate 0 (re_split_sentences t))) =
     segment_sentences t"
  by (simp add: segment_sentences_def nonempty_enumerate)

lemma files_remove_files:
  "files (remove_files ps self) p = (if p \<in> set ps then None else files self p)"
  by (induction ps arbitrary: self) auto

lemma take_enumerate_in_range:
  "\<forall>(idx, s) \<in> set (take k (List.enumerate 0 xs)). idx < length xs \<and> xs ! idx = s"
proof -
  have "set (take k (List.enumerate 0 xs)) \<subseteq> set (List.enumerate 0 xs)"
    by (rule set_take_subset)
  then show ?thesis
    using enumerate_in_range [of xs] by (meson subsetD)
qed

text \<open>
  C4 (a synthesis failure), as the code has it. When the sentences before index
  \<open>k\<close> have gone through the loop and the synthesis call for the non-empty
  sentence at index \<open>k\<close> fails, the run ends there: the state \<open>generate_audio\<close>
  returns is the state at the failure (with whatever the failed call left at the
  temporary path) plus the line \<open>Generation Error: ...\<close>, minus the temporary files
  of the sentences before. The list \<open>temp_files\<close> holds exactly the temporary paths
  of the non-empty sentences before index \<open>k\<close>, in order; after the run none of
  these files exists, and every other path holds what it held at the failure. No later
  sentence is processed and nothing is exported; the exception does not leave
  \<open>generate_audio\<close>, and the voice bindings are those at the failure.
\<close>

theorem synthesis_failure_ends_run:
  fixes eng :: "('f, 'a) engine" and self :: "'f book_to_speech" and input_text :: string and k :: nat
  defines "sentences \<equiv> re_split_sentences input_text"
  defines "speaker \<equiv> fst (detect_speaker_ml (nlp eng) (strip (sentences ! k)))"
  defines "dialogue \<equiv> snd (detect_speaker_ml (nlp eng) (strip (sentences ! k)))"
  assumes k: "k < length sentences"
    and before: "for_loop eng sentences (take k (List.enumerate 0 sentences)) ([Silence 100], [], self) =
                   (None, audio, temps, self1)"
    and nonempty: "strip (sentences ! k) \<noteq> []"
    and fails: "tts_to_file eng dialogue (fst (assign_voice speaker self1)) (temp_path_of k) (speed self1) =
                  Failed e partial"
  shows "generate_audio eng input_text output_filename self =
           remove_files temps
             (print (''Generation Error: '' @ str_of_error e)
                (snd (write_file (temp_path_of k) (Failed e partial)
                   (print (processing_line speaker dialogue)
                      (snd (assign_voice speaker self1))))))
         \<and> last (stdout (generate_audio eng input_text output_filename self)) =
             ''Generation Error: '' @ str_of_error e
         \<and> character_voices (generate_audio eng input_text output_filename self) =
             character_voices (snd (assign_voice speaker self1))
         \<and> temps = map (\<lambda>(idx, s). temp_path_of idx)
                     (filter (\<lambda>(idx, s). strip s \<noteq> []) (take k (List.enumerate 0 sentences)))
         \<and> (\<forall>p \<in> set temps. files (generate_audio eng input_text output_filename self) p = None)
         \<and> (\<forall>p. p \<notin> set temps \<longrightarrow>
               files (generate_audio eng input_text output_filename self) p =
               files (snd (write_file (temp_path_of k) (Failed e partial)
                        (print (processing_line speaker dialogue)
                           (snd (assign_voice speaker self1))))) p)"
proof -
  let ?self2 = "print (processing_line speaker dialogue)
                  (snd (assign_voice speaker self1))"
  let ?self3 = "snd (write_file (temp_path_of k) (Failed e partial) ?self2)"
  have sd: "detect_speaker_ml (nlp eng) (strip (sentences ! k)) = (speaker, dialogue)"
    by (simp add: speaker_def dialogue_def)
  have wf: "write_file (temp_path_of k) (Failed e partial) ?self2 = (Some e, ?self3)"
    by (cases partial) (simp_all add: write_file_def)
  have body: "loop_body eng sentences k (sentences ! k) (audio, temps, self1) =
                (Some e, audio, temps, ?self3)"
  proof -
    have ds: "detect_speaker (nlp eng) (int k) sentences = Inr (speaker, dialogue)"
      using detect_speaker_in_range [OF k] sd by simp
    have av: "assign_voice speaker self1 =
                (fst (assign_voice speaker self1), snd (assign_voice speaker self1))"
      by simp
    have wf': "write_file (temp_path_of k)
                 (tts_to_file eng dialogue (fst (assign_voice speaker self1)) (temp_path_of k) (speed self1))
                 ?self2 = (Some e, ?self3)"
      using fails wf by simp
    from loop_body_nonempty [OF nonempty ds av wf'] show ?thesis by simp
  qed
  have "for_loop eng sentences (List.enumerate 0 sentences) ([Silence 100], [], self) =
          (Some e, audio, temps, ?self3)"
    by (subst enumerate_nth_split [OF k]) (simp add: for_loop_append before body)
  then have main: "generate_audio eng input_text output_filename self =
           remove_files temps (print (''Generation Error: '' @ str_of_error e) ?self3)"
    by (simp add: generate_audio_def sentences_def)
  have log: "last (stdout (generate_audio eng input_text output_filename self)) =
             ''Generation Error: '' @ str_of_error e"
    by (simp add: main)
  have cv: "character_voices (generate_audio eng input_text output_filename self) =
             character_voices (snd (assign_voice speaker self1))"
    by (simp add: main)
  have listed: "temps = map (\<lambda>(idx, s). temp_path_of idx)
                     (filter (\<lambda>(idx, s). strip s \<noteq> []) (take k (List.enumerate 0 sentences)))"
    using for_loop_success [OF before take_enumerate_in_range] by simp
  have fs: "files (generate_audio eng input_text output_filename self) p =
              (if p \<in> set temps then None else files ?self3 p)" for p
    by (simp add: main files_remove_files print_def)
  have gone: "\<forall>p \<in> set temps. files (generate_audio eng input_text output_filename self) p = None"
    by (simp add: fs)
  have kept: "\<forall>p. p \<notin> set temps \<longrightarrow>
               files (generate_audio eng input_text output_filename self) p = files ?self3 p"
    by (simp add: fs)
  from main log cv listed gone kept show ?thesis by blast
qed

theorem synthesis_failure_ends_run_witness:
  "1 < length (re_split_sentences ''One. Two. Three.'')
   \<and> fst (for_loop failing_engine (re_split_sentences ''One. Two. Three.'')
          (take 1 (List.enumerate 0 (re_split_sentences ''One. Two. Three.'')))
          ([Silence 100], [], init 1 Map.empty)) = None
   \<and> strip (re_split_sentences ''One. Two. Three.'' ! 1) = ''Two.''
   \<and> last (stdout (generate_audio failing_engine ''One. Two. Three.'' ''out.wav'' (init 1 Map.empty))) =
       ''Generation Error: synthesis failed''
   \<and> fst (snd (snd (for_loop failing_engine (re_split_sentences ''One. Two. Three.'')
          (take 1 (List.enumerate 0 (re_split_sentences ''One. Two. Three.'')))
          ([Silence 100], [], init 1 Map.empty)))) = [''output_audio/temp_0.wav'']
   \<and> files (snd (snd (snd (for_loop failing_engine (re_split_sentences ''One. Two. Three.'')
          (take 1 (List.enumerate 0 (re_split_sentences ''One. Two. Three.'')))
          ([Silence 100], [], init 1 Map.empty))))) ''output_audio/temp_0.wav'' =
       Some [Sound ''p225:\"One.\"'']
   \<and> files (generate_audio failing_engine ''One. Two. Three.'' ''out.wav'' (init 1 Map.empty))
         ''output_audio/temp_0.wav'' = None"
proof -
  let ?t = "''One. Two. Three.''"
  let ?ss = "re_split_sentences ?t"
  let ?r = "for_loop failing_engine ?ss (take 1 (List.enumerate 0 ?ss)) ([Silence 100], [], init 1 Map.empty)"
  have k: "1 < length ?ss"
    by (simp add: eval_gen eval_strings)
  have ok: "fst ?r = None"
    by (simp add: eval_gen eval_registry eval_strings)
  have before: "?r = (None, fst (snd ?r), fst (snd (snd ?r)), snd (snd (snd ?r)))"
    using ok by (metis prod.collapse)
  have two: "strip (?ss ! 1) = ''Two.''"
    by (simp add: eval_gen eval_strings)
  then have nonempty: "strip (?ss ! 1) \<noteq> []"
    by simp
  have fails: "tts_to_file failing_engine
      (snd (detect_speaker_ml (nlp failing_engine) (strip (?ss ! 1))))
      (fst (assign_voice (fst (detect_speaker_ml (nlp failing_engine) (strip (?ss ! 1))))
         (snd (snd (snd ?r)))))
      (temp_path_of 1) (speed (snd (snd (snd ?r)))) = Failed (RuntimeError ''synthesis failed'') None"
    by (simp add: failing_engine_def good_engine_def temp_path_of_def)
  have written: "files (snd (snd (snd ?r))) ''output_audio/temp_0.wav'' = Some [Sound ''p225:\"One.\"'']"
    by (simp add: eval_gen eval_registry eval_strings)
  note run = synthesis_failure_ends_run [OF k before nonempty fails, of "''out.wav''"]
  from run have "last (stdout (generate_audio failing_engine ?t ''out.wav'' (init 1 Map.empty))) =
       ''Generation Error: '' @ str_of_error (RuntimeError ''synthesis failed'')"
    by blast
  then have log: "last (stdout (generate_audio failing_engine ?t ''out.wav'' (init 1 Map.empty))) =
       ''Generation Error: synthesis failed''"
    by simp
  from run have "fst (snd (snd ?r)) = map (\<lambda>(idx, s). temp_path_of idx)
                     (filter (\<lambda>(idx, s). strip s \<noteq> []) (take 1 (List.enumerate 0 ?ss)))"
    by blast
  also have "\<dots> = [''output_audio/temp_0.wav'']"
    by (simp add: eval_gen eval_strings)
  finally have temps: "fst (snd (snd ?r)) = [''output_audio/temp_0.wav'']" .
  from run have "\<forall>p \<in> set (fst (snd (snd ?r))).
      files (generate_audio failing_engine ?t ''out.wav'' (init 1 Map.empty)) p = None"
    by blast
  then have gone: "files (generate_audio failing_engine ?t ''out.wav'' (init 1 Map.empty))
         ''output_audio/temp_0.wav'' = None"
    unfolding temps by simp
  from k ok two log temps written gone show ?thesis by blast
qed

text \<open>
  The claim C4 as stated fails: when the synthesis of the second of three sentences
  fails, the third sentence is not processed, although its synthesis would succeed,
  and no track is exported. The temporary file of the first sentence is removed.
\<close>

theorem synthesis_failure_counterexample:
  "stdout (generate_audio failing_engine ''One. Two. Three.'' ''out.wav'' (init 1 Map.empty)) =
     [''Processing: narrator => \"One.\"...'', ''Processing: narrator => \"Two.\"...'',
      ''Generation Error: synthesis failed'']
   \<and> files (generate_audio failing_engine ''One. Two. Three.'' ''out.wav'' (init 1 Map.empty))
         ''output_audio/out.wav'' = None
   \<and> files (generate_audio failing_engine ''One. Two. Three.'' ''out.wav'' (init 1 Map.empty))
         ''output_audio/temp_0.wav'' = None
   \<and> tts_to_file failing_engine ''\"Three.\"'' ''p225'' (temp_path_of 2) 1 =
         Written [Sound ''p225:\"Three.\"'']"
  by (simp add: eval_gen eval_registry eval_strings)

text \<open>
  C3 (track assembly), as the code has it. When the loop has gone through all the
  sentences without an exception, the track is the leading silence of 100 ms followed,
  for each sound in order, by the sound and the trailing silence of 200 ms: every
  segment, the last one too, is followed by the trailing silence. The sounds are, in
  sentence order, the segments of the non-empty sentences, one per sentence, each
  synthesized from the sentence's utterance with the voice of its speaker. Against the
  track the specification describes, the code's track has one more trailing silence at
  the end as soon as there is a segment. When the export succeeds, this track is what
  is written to the output file, and the success line is printed.
\<close>

theorem track_assembly:
  fixes eng :: "('f, 'a) engine" and self :: "'f book_to_speech" and input_text :: string
  defines "sentences \<equiv> re_split_sentences input_text"
  assumes run: "for_loop eng sentences (List.enumerate 0 sentences) ([Silence 100], [], self) =
                  (None, audio, temps, self1)"
  shows "audio = Silence 100 # concat (map (\<lambda>S. [Sound S, Silence 200]) (sounds audio))
       \<and> map Inr (sounds audio) =
           map (\<lambda>(idx, s). segment_of eng self1 idx (strip s))
             (filter (\<lambda>(idx, s). strip s \<noteq> []) (List.enumerate 0 sentences))
       \<and> length (sounds audio) = length (segment_sentences input_text)
       \<and> audio = (if sounds audio = [] then track_spec [] else track_spec (sounds audio) @ [Silence 200])
       \<and> (export_wav eng audio = Written f \<longrightarrow>
            generate_audio eng input_text output_filename self =
              remove_files temps
                (print (''Successfully generated: output_audio/'' @ output_filename)
                   (self1\<lparr>files := (files self1)(''output_audio/'' @ output_filename \<mapsto> f)\<rparr>)))"
proof -
  from for_loop_success [OF run enumerate_in_range] obtain segs where
    segs: "map Inr segs =
             map (\<lambda>(idx, s). segment_of eng self1 idx (strip s))
               (filter (\<lambda>(idx, s). strip s \<noteq> []) (List.enumerate 0 sentences))"
    and audio: "audio = [Silence 100] @ concat (map (\<lambda>S. [Sound S, Silence 200]) segs)"
    by blast
  have s: "sounds audio = segs"
    by (simp add: audio)
  have a: "audio = Silence 100 # concat (map (\<lambda>S. [Sound S, Silence 200]) (sounds audio))"
    using audio by (simp add: s)
  have b: "map Inr (sounds audio) =
           map (\<lambda>(idx, s). segment_of eng self1 idx (strip s))
             (filter (\<lambda>(idx, s). strip s \<noteq> []) (List.enumerate 0 sentences))"
    using segs by (simp add: s)
  have "length (sounds audio) =
          length (filter (\<lambda>(idx, s). strip s \<noteq> []) (List.enumerate 0 sentences))"
    using b by (metis length_map)
  also have "\<dots> = length (segment_sentences input_text)"
    using nonempty_sentences [of input_text] unfolding sentences_def by (metis length_map)
  finally have c: "length (sounds audio) = length (segment_sentences input_text)" .
  have d: "audio = (if sounds audio = [] then track_spec [] else track_spec (sounds audio) @ [Silence 200])"
    using a track_spec_padded [of "sounds audio"] by simp
  have e: "export_wav eng audio = Written f \<longrightarrow>
            generate_audio eng input_text output_filename self =
              remove_files temps
                (print (''Successfully generated: output_audio/'' @ output_filename)
                   (self1\<lparr>files := (files self1)(''output_audio/'' @ output_filename \<mapsto> f)\<rparr>))"
    using run by (simp add: generate_audio_def sentences_def write_file_def)
  from a b c d e show ?thesis by blast
qed

theorem track_assembly_witness:
  "fst (for_loop good_engine (re_split_sentences ''Hi. \"Go\" now!'')
          (List.enumerate 0 (re_split_sentences ''Hi. \"Go\" now!''))
          ([Silence 100], [], init 1 Map.empty)) = None
   \<and> fst (snd (for_loop good_engine (re_split_sentences ''Hi. \"Go\" now!'')
          (List.enumerate 0 (re_split_sentences ''Hi. \"Go\" now!''))
          ([Silence 100], [], init 1 Map.empty))) =
       [Silence 100, Sound ''p225:\"Hi.\"'', Silence 200, Sound ''p226:\"Go\"'', Silence 200]
   \<and> files (generate_audio good_engine ''Hi. \"Go\" now!'' ''out.wav'' (init 1 Map.empty))
         ''output_audio/out.wav'' =
       Some [Silence 100, Sound ''p225:\"Hi.\"'', Silence 200, Sound ''p226:\"Go\"'', Silence 200]"
proof -
  let ?t = "''Hi. \"Go\" now!''"
  let ?r = "for_loop good_engine (re_split_sentences ?t) (List.enumerate 0 (re_split_sentences ?t))
              ([Silence 100], [], init 1 Map.empty)"
  have ok: "fst ?r = None"
    by (simp add: eval_gen eval_registry eval_strings)
  have run: "?r = (None, fst (snd ?r), fst (snd (snd ?r)), snd (snd (snd ?r)))"
    using ok by (metis prod.collapse)
  have snds: "sounds (fst (snd ?r)) = [''p225:\"Hi.\"'', ''p226:\"Go\"'']"
    by (simp add: eval_gen eval_registry eval_strings)
  have "fst (snd ?r) = Silence 100 # concat (map (\<lambda>S. [Sound S, Silence 200]) (sounds (fst (snd ?r))))"
    using track_assembly [OF run] by blast
  then have audio: "fst (snd ?r) =
      [Silence 100, Sound ''p225:\"Hi.\"'', Silence 200, Sound ''p226:\"Go\"'', Silence 200]"
    unfolding snds by simp
  have "files (generate_audio good_engine ?t ''out.wav'' (init 1 Map.empty)) ''output_audio/out.wav'' =
       Some [Silence 100, Sound ''p225:\"Hi.\"'', Silence 200, Sound ''p226:\"Go\"'', Silence 200]"
    by (simp add: eval_gen eval_registry eval_strings)
  with ok audio show ?thesis by blast
qed

text \<open>
  The claim C3 as stated fails already for one segment: the exported track ends with
  the trailing silence, not with the segment.
\<close>

theorem track_assembly_counterexample:
  "files (generate_audio good_engine ''Hi.'' ''out.wav'' (init 1 Map.empty)) ''output_audio/out.wav'' =
     Some [Silence 100, Sound ''p225:\"Hi.\"'', Silence 200]
   \<and> track_spec [''p225:\"Hi.\"''] = [Silence 100, Sound ''p225:\"Hi.\"'']
   \<and> files (generate_audio good_engine ''Hi.'' ''out.wav'' (init 1 Map.empty)) ''output_audio/out.wav'' \<noteq>
     Some (track_spec [''p225:\"Hi.\"''])"
  by (simp add: eval_gen eval_registry eval_strings track_spec_def)

text \<open>
  C5 (cleanup of temporary files) fails on the code. The path of a sentence's
  temporary file is put on the list \<open>temp_files\<close> only after the file has been
  written, loaded and changed in speed (line 119), so when the loading raises, the
  file just written is not on the list and the \<open>finally\<close> block leaves it on disk.
  Here the first sentence's file does not decode: after the run, which started on an
  empty disk, the file \<open>output_audio/temp_0.wav\<close> is still there.
\<close>

theorem temp_file_left_after_load_failure:
  "files (init 1 (Map.empty :: string \<rightharpoonup> string piece list)) ''output_audio/temp_0.wav'' = None
   \<and> files (generate_audio corrupt_engine ''One. Two.'' ''out.wav'' (init 1 Map.empty))
         ''output_audio/temp_0.wav'' = Some []
   \<and> stdout (generate_audio corrupt_engine ''One. Two.'' ''out.wav'' (init 1 Map.empty)) =
       [''Processing: narrator => \"One.\"...'', ''Generation Error: bad wav'']"
  by (simp add: eval_gen eval_registry eval_strings)

end
